theory Spec2Isabelle
  imports Main "HOL-Library.Sublist"
begin

section \<open>amatl-action: a shallow embedding of \<open>src/amatl.ts\<close> and \<open>src/main.ts\<close>\<close>

text \<open>
  The action is glue around external collaborators: the GitHub toolkit (\<open>core\<close>,
  \<open>exec\<close>, \<open>io\<close>, \<open>tool-cache\<close>), \<open>glob\<close>, \<open>string-argv\<close>, \<open>fetch\<close> and Node's
  \<open>path\<close> and \<open>os\<close> modules. Every collaborator whose answer depends on the outside
  world is a field of the record \<open>host\<close>; each effectful call the source makes is
  recorded as an \<open>event\<close>, in the order the source makes it. A thrown \<open>Error\<close> is the
  left summand of a sum type. Log output (\<open>core.info\<close>, \<open>core.warning\<close>,
  \<open>core.error\<close>) changes no result and is left out. Strings are lists of 8-bit
  characters, so the model speaks about ASCII text.
\<close>

subsection \<open>Data model\<close>

datatype error = Error string

record AmatlOptions =
  patterns :: string
  ignore :: string
  outputDir :: string
  format :: string
  layout :: "string option"
  vars :: "string option"
  version :: string
  config :: "string option"
  additionalArgs :: "string option"

record ProcessResult =
  filesProcessed :: nat
  outputFiles :: "string list"

text \<open>
  What the \<open>try\<close> block of \<open>getLatestAmatlVersion\<close> can meet: \<open>fetch\<close> rejects,
  or reading the response as JSON throws, or a body is read whose \<open>tag_name\<close> is a
  string or is missing (\<open>undefined\<close>).
\<close>

datatype fetch_outcome =
    FetchRejects error
  | JsonRejects error
  | Body "string option"

text \<open>
  The effectful calls: \<open>io.mkdirP\<close>, \<open>exec.exec\<close>, \<open>glob\<close>, \<open>tc.downloadTool\<close>,
  \<open>tc.extractTar\<close>, \<open>tc.cacheDir\<close>, \<open>core.setOutput\<close>, \<open>core.setFailed\<close>; and, for
  the dispatcher, the call that starts the job of a file and the joint wait
  \<open>await Promise.all(batch)\<close> on the jobs of the listed files.
\<close>

datatype event =
    MkdirP string
  | Exec string "string list"
  | Glob string "string list" bool
  | Download string
  | ExtractTar string
  | CacheDir string string string
  | SetOutput string string
  | SetFailed string
  | Start string
  | Wait "string list"

text \<open>
  The outside world. \<open>platform\<close>, \<open>arch\<close> and \<open>cwd\<close> are \<open>process.platform\<close>,
  \<open>process.arch\<close> and \<open>process.cwd()\<close>; \<open>workspace\<close> is
  \<open>process.env.GITHUB_WORKSPACE\<close>, which the source reads \<open>as string\<close>; \<open>cpus\<close> is
  \<open>os.cpus().length\<close>. \<open>tc_find\<close> answers the empty string for a tool that is not
  cached. \<open>exec\<close> and \<open>mkdirP\<close> answer the error they reject with, if any.
  \<open>completion w\<close> is the order in which the jobs of the \<open>w\<close>-th joint wait settle.
\<close>

record host =
  platform :: string
  arch :: string
  cwd :: string
  workspace :: string
  cpus :: nat
  getInput :: "string \<Rightarrow> string"
  tc_find :: "string \<Rightarrow> string \<Rightarrow> string"
  fetch_latest :: fetch_outcome
  downloadTool :: "string \<Rightarrow> error + string"
  extractTar :: "string \<Rightarrow> error + string"
  cacheDir :: "string \<Rightarrow> string \<Rightarrow> string \<Rightarrow> error + string"
  exec :: "string \<Rightarrow> string list \<Rightarrow> error option"
  mkdirP :: "string \<Rightarrow> error option"
  glob :: "string \<Rightarrow> string list \<Rightarrow> bool \<Rightarrow> string list"
  stringArgv :: "string \<Rightarrow> string list"
  json_stringify :: "string list \<Rightarrow> string"
  completion :: "nat \<Rightarrow> nat list"

text \<open>JavaScript truthiness of an optional string: defined and not empty.\<close>

fun truthy :: "string option \<Rightarrow> bool" where
  "truthy None = False"
| "truthy (Some s) = (s \<noteq> [])"

subsection \<open>String primitives of JavaScript\<close>

text \<open>\<open>s.split(c)\<close> for a one-character separator: never the empty list.\<close>

fun split_on :: "char \<Rightarrow> string \<Rightarrow> string list" where
  "split_on c [] = [[]]"
| "split_on c (x # xs) =
     (if x = c then [] # split_on c xs
      else (case split_on c xs of [] \<Rightarrow> [[x]] | w # ws \<Rightarrow> (x # w) # ws))"

definition is_space :: "char \<Rightarrow> bool" where
  "is_space c = (c \<in> set [CHR '' '', CHR 0x09, CHR 0x0A, CHR 0x0B, CHR 0x0C, CHR 0x0D])"

definition trim :: "string \<Rightarrow> string" where
  "trim s = rev (dropWhile is_space (rev (dropWhile is_space s)))"

definition lower_char :: "char \<Rightarrow> char" where
  "lower_char c =
     (if (65::nat) \<le> of_char c \<and> of_char c \<le> (90::nat)
      then char_of (of_char c + (32::nat)) else c)"

definition toLowerCase :: "string \<Rightarrow> string" where
  "toLowerCase s = map lower_char s"

text \<open>\<open>s.replace(c, '')\<close> with a string pattern: the first occurrence only.\<close>

fun remove_first :: "char \<Rightarrow> string \<Rightarrow> string" where
  "remove_first c [] = []"
| "remove_first c (x # xs) = (if x = c then xs else x # remove_first c xs)"

subsection \<open>Node's POSIX \<open>path\<close> module, on path segments\<close>

text \<open>
  \<open>path.join\<close>, \<open>path.normalize\<close>, \<open>path.dirname\<close>, \<open>path.basename\<close>,
  \<open>path.extname\<close> and \<open>path.relative\<close> as Node implements them for POSIX paths (the
  action runs on Linux runners), written on the list of segments between slashes
  instead of on character indices. \<open>path.basename\<close> is only ever called with the
  file's own \<open>path.extname\<close> as suffix.
\<close>

fun join_segs :: "string list \<Rightarrow> string" where
  "join_segs [] = []"
| "join_segs [s] = s"
| "join_segs (s # t) = s @ ''/'' @ join_segs t"

text \<open>
  One step of \<open>normalizeString\<close>: empty segments and \<open>.\<close> vanish, \<open>..\<close> removes the
  segment before it, or is kept when there is none to remove and the path is relative.
\<close>

definition norm_step :: "bool \<Rightarrow> string list \<Rightarrow> string \<Rightarrow> string list" where
  "norm_step allowAboveRoot st seg =
     (if seg = [] \<or> seg = ''.'' then st
      else if seg = ''..'' then
        (if st \<noteq> [] \<and> last st \<noteq> ''..'' then butlast st
         else if allowAboveRoot then st @ [''..''] else st)
      else st @ [seg])"

definition normalize_segs :: "bool \<Rightarrow> string list \<Rightarrow> string list" where
  "normalize_segs allowAboveRoot segs = foldl (norm_step allowAboveRoot) [] segs"

definition is_absolute :: "string \<Rightarrow> bool" where
  "is_absolute p = (p \<noteq> [] \<and> hd p = CHR ''/'')"

definition path_segments :: "string \<Rightarrow> string list" where
  "path_segments p = normalize_segs (\<not> is_absolute p) (split_on CHR ''/'' p)"

definition path_normalize :: "string \<Rightarrow> string" where
  "path_normalize p =
     (if p = [] then ''.''
      else
        let trailing = (last p = CHR ''/'');
            r = join_segs (path_segments p)
        in if r = [] then (if is_absolute p then ''/'' else if trailing then ''./'' else ''.'')
           else (if is_absolute p then ''/'' else []) @ r @ (if trailing then ''/'' else []))"

definition path_join :: "string list \<Rightarrow> string" where
  "path_join args =
     (let parts = filter (\<lambda>a. a \<noteq> []) args
      in if parts = [] then ''.'' else path_normalize (join_segs parts))"

text \<open>The last component of a path, trailing slashes ignored.\<close>

definition last_component :: "string \<Rightarrow> string" where
  "last_component p =
     rev (takeWhile (\<lambda>c. c \<noteq> CHR ''/'') (dropWhile (\<lambda>c. c = CHR ''/'') (rev p)))"

definition path_extname :: "string \<Rightarrow> string" where
  "path_extname p =
     (let seg = last_component p
      in if CHR ''.'' \<notin> set seg then []
         else
           let ext = CHR ''.'' # rev (takeWhile (\<lambda>c. c \<noteq> CHR ''.'') (rev seg));
               stem = take (length seg - length ext) seg
           in if stem = [] \<or> seg = ''..'' then [] else ext)"

definition path_basename :: "string \<Rightarrow> string \<Rightarrow> string" where
  "path_basename p sfx =
     (let seg = last_component p
      in if sfx \<noteq> [] \<and> sfx = p then []
         else if sfx \<noteq> [] \<and> suffix sfx seg \<and> sfx \<noteq> seg
           then take (length seg - length sfx) seg
         else seg)"

definition path_dirname :: "string \<Rightarrow> string" where
  "path_dirname p =
     (if p = [] then ''.''
      else
        let r = dropWhile (\<lambda>c. c \<noteq> CHR ''/'') (dropWhile (\<lambda>c. c = CHR ''/'') (rev (tl p)))
        in if r = [] then (if is_absolute p then ''/'' else ''.'')
           else if is_absolute p \<and> length r = 1 then ''//''
           else take (length r) p)"

text \<open>\<open>path.resolve(p)\<close> against the working directory, as the segments after the root.\<close>

definition resolve_segs :: "string \<Rightarrow> string \<Rightarrow> string list" where
  "resolve_segs wd p =
     normalize_segs False
       (split_on CHR ''/'' (if is_absolute p then p else if p = [] then wd else wd @ ''/'' @ p))"

fun common_prefix_len :: "string list \<Rightarrow> string list \<Rightarrow> nat" where
  "common_prefix_len (x # xs) (y # ys) = (if x = y then Suc (common_prefix_len xs ys) else 0)"
| "common_prefix_len _ _ = 0"

definition path_relative :: "string \<Rightarrow> string \<Rightarrow> string \<Rightarrow> string" where
  "path_relative wd from to =
     (if from = to then []
      else
        let fs = resolve_segs wd from;
            ts = resolve_segs wd to;
            n = common_prefix_len fs ts
        in join_segs (replicate (length fs - n) ''..'' @ drop n ts))"

subsection \<open>\<open>installAmatl\<close> and \<open>getLatestAmatlVersion\<close>\<close>

text \<open>The two \<open>switch\<close> statements of \<open>installAmatl\<close>.\<close>

definition osName_of :: "string \<Rightarrow> error + string" where
  "osName_of p =
     (if p = ''linux'' then Inr ''linux''
      else if p = ''darwin'' then Inr ''darwin''
      else if p = ''win32'' then Inr ''windows''
      else Inl (Error (''Unsupported platform: '' @ p)))"

definition archName_of :: "string \<Rightarrow> error + string" where
  "archName_of a =
     (if a = ''x64'' then Inr ''amd64''
      else if a = ''arm64'' then Inr ''arm64''
      else Inl (Error (''Unsupported architecture: '' @ a)))"

text \<open>
  The \<open>try\<close>/\<open>catch\<close> of \<open>getLatestAmatlVersion\<close>: a rejection of \<open>fetch\<close> or of
  \<open>response.json()\<close> is caught; otherwise \<open>data.tag_name\<close> is returned as it is,
  \<open>undefined\<close> (\<open>None\<close>) included.
\<close>

definition getLatestAmatlVersion :: "host \<Rightarrow> string option" where
  "getLatestAmatlVersion h =
     (case fetch_latest h of
        FetchRejects e \<Rightarrow> Some ''v0.25.1''
      | JsonRejects e \<Rightarrow> Some ''v0.25.1''
      | Body t \<Rightarrow> t)"

text \<open>The \<open>TypeError\<close> of calling \<open>replace\<close> on \<open>undefined\<close>.\<close>

definition undefined_replace :: error where
  "undefined_replace =
     Error (''Cannot read properties of undefined (reading '' @ [CHR 0x27] @ ''replace''
            @ [CHR 0x27] @ '')'')"

definition downloadUrl :: "string \<Rightarrow> string \<Rightarrow> string \<Rightarrow> string" where
  "downloadUrl actualVersion osName archName =
     ''https://github.com/Bornholm/amatl/releases/download/'' @ actualVersion @ ''/amatl_''
       @ remove_first CHR ''v'' actualVersion @ ''_'' @ osName @ ''_'' @ archName @ ''.tar.gz''"

text \<open>The part of \<open>installAmatl\<close> after the version is known.\<close>

definition install_download ::
  "host \<Rightarrow> string \<Rightarrow> string \<Rightarrow> string \<Rightarrow> event list \<times> (error + string)" where
  "install_download h actualVersion osName archName =
     (let url = downloadUrl actualVersion osName archName
      in case downloadTool h url of
           Inl e \<Rightarrow> ([Download url], Inl e)
         | Inr downloadPath \<Rightarrow>
            (case extractTar h downloadPath of
               Inl e \<Rightarrow> ([Download url, ExtractTar downloadPath], Inl e)
             | Inr extractedPath \<Rightarrow>
                (let evs = [Download url, ExtractTar downloadPath,
                            CacheDir extractedPath ''amatl'' actualVersion]
                 in case cacheDir h extractedPath ''amatl'' actualVersion of
                      Inl e \<Rightarrow> (evs, Inl e)
                    | Inr toolPath \<Rightarrow>
                       (let binaryPath =
                              path_join [toolPath,
                                if platform h = ''win32'' then ''amatl.exe'' else ''amatl'']
                        in if platform h \<noteq> ''win32'' then
                             (case exec h ''chmod'' [''+x'', binaryPath] of
                                Some e \<Rightarrow> (evs @ [Exec ''chmod'' [''+x'', binaryPath]], Inl e)
                              | None \<Rightarrow>
                                 (evs @ [Exec ''chmod'' [''+x'', binaryPath]], Inr binaryPath))
                           else (evs, Inr binaryPath)))))"

definition installAmatl :: "host \<Rightarrow> string \<Rightarrow> event list \<times> (error + string)" where
  "installAmatl h ver =
     (let toolPath = tc_find h ''amatl'' ver
      in if toolPath \<noteq> [] then ([], Inr (path_join [toolPath, ''amatl'']))
         else
          (case osName_of (platform h) of
             Inl e \<Rightarrow> ([], Inl e)
           | Inr osName \<Rightarrow>
              (case archName_of (arch h) of
                 Inl e \<Rightarrow> ([], Inl e)
               | Inr archName \<Rightarrow>
                  (case (if ver = ''latest'' then getLatestAmatlVersion h else Some ver) of
                     None \<Rightarrow>
                       ([], Inl undefined_replace)
                   | Some actualVersion \<Rightarrow>
                       install_download h actualVersion osName archName))))"

subsection \<open>\<open>findMarkdownFiles\<close>\<close>

text \<open>
  The loop over \<open>patterns.split('\n')\<close>. Each iteration calls \<open>glob\<close> with the fixed
  options \<open>ignore: ['node_modules/**', '.git/**']\<close> and \<open>nodir: true\<close>, filters the
  matches against the user's ignore set and appends what is left to \<open>files\<close>.
  \<open>process.env.GITHUB_WORKSPACE\<close> is read \<open>as string\<close>; \<open>path.relative\<close> resolves
  both of its arguments against the working directory.
\<close>

definition glob_ignore :: "string list" where
  "glob_ignore = [''node_modules/**'', ''.git/**'']"

definition not_ignored :: "host \<Rightarrow> string list \<Rightarrow> string \<Rightarrow> bool" where
  "not_ignored h ignoredFiles m =
     (path_relative (cwd h) (workspace h) m \<notin> set ignoredFiles)"

fun find_loop ::
  "host \<Rightarrow> string list \<Rightarrow> string list \<Rightarrow> string list \<Rightarrow> event list \<times> string list" where
  "find_loop h ignoredFiles [] files = ([], files)"
| "find_loop h ignoredFiles (pattern # rest) files =
     (let matches = glob h pattern glob_ignore True;
          kept = filter (not_ignored h ignoredFiles) matches;
          (evs, r) = find_loop h ignoredFiles rest (files @ kept)
      in (Glob pattern glob_ignore True # evs, r))"

definition findMarkdownFiles :: "host \<Rightarrow> string \<Rightarrow> string \<Rightarrow> event list \<times> string list" where
  "findMarkdownFiles h pats ign =
     find_loop h (split_on CHR 0x0A ign) (split_on CHR 0x0A pats) []"

subsection \<open>\<open>processMarkdownFile\<close>: one job\<close>

definition formats_of :: "AmatlOptions \<Rightarrow> string list" where
  "formats_of opts = map trim (split_on CHR '','' (toLowerCase (format opts)))"

definition outputSubDir_of :: "host \<Rightarrow> string \<Rightarrow> AmatlOptions \<Rightarrow> string" where
  "outputSubDir_of h file opts =
     path_join [outputDir opts, path_dirname (path_relative (cwd h) (cwd h) file)]"

definition extension_of :: "string \<Rightarrow> string" where
  "extension_of fmt = (if fmt = ''markdown'' then ''md'' else fmt)"

definition outputFile_of :: "host \<Rightarrow> string \<Rightarrow> AmatlOptions \<Rightarrow> string \<Rightarrow> string" where
  "outputFile_of h file opts fmt =
     path_join [outputSubDir_of h file opts,
                path_basename file (path_extname file) @ ''.'' @ extension_of fmt]"

text \<open>\<open>if (o) args.push(flag, o)\<close> for an optional string \<open>o\<close>.\<close>

fun flag_args :: "string \<Rightarrow> string option \<Rightarrow> string list" where
  "flag_args flag None = []"
| "flag_args flag (Some v) = (if v \<noteq> [] then [flag, v] else [])"

fun extra_args :: "host \<Rightarrow> string option \<Rightarrow> string list" where
  "extra_args h None = []"
| "extra_args h (Some a) = (if a \<noteq> [] then stringArgv h a else [])"

definition render_args :: "host \<Rightarrow> string \<Rightarrow> AmatlOptions \<Rightarrow> string \<Rightarrow> string list" where
  "render_args h file opts fmt =
     [''render'']
     @ flag_args ''-c'' (config opts)
     @ [fmt, ''-o'', outputFile_of h file opts fmt]
     @ (if fmt = ''html'' \<or> fmt = ''pdf'' then flag_args ''--html-layout'' (layout opts) else [])
     @ flag_args ''--vars'' (vars opts)
     @ extra_args h (additionalArgs opts)
     @ [file]"

text \<open>
  The loop over the formats. A rejected \<open>exec.exec\<close> is rethrown from the \<open>catch\<close>
  block, so the loop stops there and the local \<open>outputFiles\<close> is dropped.
\<close>

fun format_loop ::
  "host \<Rightarrow> string \<Rightarrow> string \<Rightarrow> AmatlOptions \<Rightarrow> string list \<Rightarrow> string list
     \<Rightarrow> event list \<times> (error + string list)" where
  "format_loop h amatlPath file opts [] outs = ([], Inr outs)"
| "format_loop h amatlPath file opts (fmt # rest) outs =
     (let args = render_args h file opts fmt
      in case exec h amatlPath args of
           Some e \<Rightarrow> ([Exec amatlPath args], Inl e)
         | None \<Rightarrow>
            (let (evs, r) =
                   format_loop h amatlPath file opts rest (outs @ [outputFile_of h file opts fmt])
             in (Exec amatlPath args # evs, r)))"

definition processMarkdownFile ::
  "host \<Rightarrow> string \<Rightarrow> string \<Rightarrow> AmatlOptions \<Rightarrow> event list \<times> (error + ProcessResult)" where
  "processMarkdownFile h amatlPath file opts =
     (let outputSubDir = outputSubDir_of h file opts
      in case mkdirP h outputSubDir of
           Some e \<Rightarrow> ([MkdirP outputSubDir], Inl e)
         | None \<Rightarrow>
            (case format_loop h amatlPath file opts (formats_of opts) [] of
               (evs, Inl e) \<Rightarrow> (MkdirP outputSubDir # evs, Inl e)
             | (evs, Inr outs) \<Rightarrow>
                 (MkdirP outputSubDir # evs,
                  Inr \<lparr>filesProcessed = 1, outputFiles = outs\<rparr>)))"

subsection \<open>\<open>processMarkdownFiles\<close>: the dispatcher\<close>

text \<open>
  A promise in \<open>batch\<close> is the file it was started for together with the outcome it
  settles to. The jobs of one batch run concurrently; what the dispatcher can observe
  of that is the order in which they settle. \<open>completion h w\<close> proposes that order for
  the \<open>w\<close>-th joint wait, and \<open>complete_order\<close> reads any proposal as a permutation of
  the batch's indices (first the proposed indices, then the rest).
\<close>

type_synonym promise = "string \<times> (error + ProcessResult)"

definition complete_order :: "nat \<Rightarrow> nat list \<Rightarrow> nat list" where
  "complete_order n proposal =
     (let first = remdups (filter (\<lambda>i. i < n) proposal)
      in first @ filter (\<lambda>i. i \<notin> set first) [0..<n])"

text \<open>
  \<open>Promise.all\<close>: each fulfilment stores its value at the promise's own index; the
  first rejection, in settling order, rejects the whole.
\<close>

fun settle ::
  "nat list \<Rightarrow> promise list \<Rightarrow> ProcessResult option list
     \<Rightarrow> error + ProcessResult option list" where
  "settle [] batch slots = Inr slots"
| "settle (i # order) batch slots =
     (if i < length batch then
        (case snd (batch ! i) of
           Inl e \<Rightarrow> Inl e
         | Inr r \<Rightarrow> settle order batch (slots[i := Some r]))
      else settle order batch slots)"

definition promise_all :: "nat list \<Rightarrow> promise list \<Rightarrow> error + ProcessResult list" where
  "promise_all proposal batch =
     (case settle (complete_order (length batch) proposal) batch
             (replicate (length batch) None) of
        Inl e \<Rightarrow> Inl e
      | Inr slots \<Rightarrow> Inr (List.map_filter (\<lambda>x. x) slots))"

record dispatcher =
  batch :: "promise list"
  outs :: "string list"
  processed :: nat
  waits :: nat

text \<open>\<open>for (const result of results) { outputFiles.push(...); filesProcessed += ... }\<close>\<close>

fun merge_results :: "ProcessResult list \<Rightarrow> dispatcher \<Rightarrow> dispatcher" where
  "merge_results [] d = d"
| "merge_results (r # rs) d =
     merge_results rs
       (d\<lparr>outs := outs d @ outputFiles r, processed := processed d + filesProcessed r\<rparr>)"

definition batchSize :: "host \<Rightarrow> int" where
  "batchSize h = (let b = int (cpus h) - 1 in if b < 1 then 1 else b)"

text \<open>
  The \<open>for\<close> loop of \<open>processMarkdownFiles\<close>, with the batch size as a parameter.
  \<open>Start file\<close> records the call of \<open>processMarkdownFile\<close>, \<open>Wait fs\<close> the
  \<open>await Promise.all(batch)\<close> over the jobs of the files \<open>fs\<close>. The \<open>else\<close> branch
  awaits and merges the batch and empties it, and the loop goes on to the next file.
\<close>

fun dispatch_loop ::
  "host \<Rightarrow> string \<Rightarrow> AmatlOptions \<Rightarrow> int \<Rightarrow> string list \<Rightarrow> dispatcher
     \<Rightarrow> event list \<times> (error + dispatcher)" where
  "dispatch_loop h amatlPath opts k [] d = ([], Inr d)"
| "dispatch_loop h amatlPath opts k (file # rest) d =
     (if int (length (batch d)) < k then
        (let p = (file, snd (processMarkdownFile h amatlPath file opts));
             (evs, r) = dispatch_loop h amatlPath opts k rest (d\<lparr>batch := batch d @ [p]\<rparr>)
         in (Start file # evs, r))
      else
        (case promise_all (completion h (waits d)) (batch d) of
           Inl e \<Rightarrow> ([Wait (map fst (batch d))], Inl e)
         | Inr results \<Rightarrow>
            (let (evs, r) =
                   dispatch_loop h amatlPath opts k rest
                     ((merge_results results d)\<lparr>batch := [], waits := Suc (waits d)\<rparr>)
             in (Wait (map fst (batch d)) # evs, r))))"

text \<open>The code after the loop: one more joint wait when the batch is not empty.\<close>

definition final_wait :: "host \<Rightarrow> dispatcher \<Rightarrow> event list \<times> (error + dispatcher)" where
  "final_wait h d =
     (if length (batch d) > 0 then
        (case promise_all (completion h (waits d)) (batch d) of
           Inl e \<Rightarrow> ([Wait (map fst (batch d))], Inl e)
         | Inr results \<Rightarrow>
             ([Wait (map fst (batch d))],
              Inr ((merge_results results d)\<lparr>waits := Suc (waits d)\<rparr>)))
      else ([], Inr d))"

definition dispatch ::
  "host \<Rightarrow> string \<Rightarrow> AmatlOptions \<Rightarrow> int \<Rightarrow> string list
     \<Rightarrow> event list \<times> (error + dispatcher)" where
  "dispatch h amatlPath opts k files =
     (case dispatch_loop h amatlPath opts k files
             \<lparr>batch = [], outs = [], processed = 0, waits = 0\<rparr> of
        (evs, Inl e) \<Rightarrow> (evs, Inl e)
      | (evs, Inr d) \<Rightarrow>
         (case final_wait h d of (evs', r) \<Rightarrow> (evs @ evs', r)))"

definition processMarkdownFiles ::
  "host \<Rightarrow> string \<Rightarrow> string list \<Rightarrow> AmatlOptions \<Rightarrow> event list \<times> (error + ProcessResult)" where
  "processMarkdownFiles h amatlPath files opts =
     (case mkdirP h (outputDir opts) of
        Some e \<Rightarrow> ([MkdirP (outputDir opts)], Inl e)
      | None \<Rightarrow>
         (case dispatch h amatlPath opts (batchSize h) files of
            (evs, Inl e) \<Rightarrow> (MkdirP (outputDir opts) # evs, Inl e)
          | (evs, Inr d) \<Rightarrow>
              (MkdirP (outputDir opts) # evs,
               Inr \<lparr>filesProcessed = processed d, outputFiles = outs d\<rparr>)))"

subsection \<open>\<open>validateInputs\<close> and \<open>run\<close>\<close>

fun check_formats :: "string list \<Rightarrow> error option" where
  "check_formats [] = None"
| "check_formats (fmt # rest) =
     (if fmt \<notin> set [''html'', ''pdf'', ''markdown''] then
        Some (Error (''Invalid format: '' @ fmt
                     @ ''. Supported formats: html, pdf, markdown, both''))
      else check_formats rest)"

definition validateInputs :: "AmatlOptions \<Rightarrow> error option" where
  "validateInputs opts =
     (if patterns opts = [] then Some (Error ''Patterns is required'')
      else if outputDir opts = [] then Some (Error ''Output directory is required'')
      else check_formats (formats_of opts))"

text \<open>\<open>core.getInput(name) || undefined\<close>\<close>

definition optional_input :: "host \<Rightarrow> string \<Rightarrow> string option" where
  "optional_input h name = (let v = getInput h name in if v = [] then None else Some v)"

definition read_options :: "host \<Rightarrow> AmatlOptions" where
  "read_options h =
     \<lparr>patterns = getInput h ''patterns'',
      ignore = getInput h ''ignore'',
      outputDir = getInput h ''output-dir'',
      format = getInput h ''format'',
      layout = optional_input h ''layout'',
      vars = optional_input h ''vars'',
      version = getInput h ''amatl-version'',
      config = optional_input h ''config'',
      additionalArgs = optional_input h ''additional-args''\<rparr>"

text \<open>\<open>n.toString()\<close> for a natural number.\<close>

fun show_nat :: "nat \<Rightarrow> string" where
  "show_nat n =
     (if n < 10 then [char_of (48 + n)]
      else show_nat (n div 10) @ [char_of (48 + n mod 10)])"

declare show_nat.simps [simp del]

fun message :: "error \<Rightarrow> string" where
  "message (Error m) = m"

text \<open>
  \<open>run\<close>: every error of the \<open>try\<close> block ends in \<open>core.setFailed(error.message)\<close>.
  The events of the jobs themselves stay with the jobs (\<open>processMarkdownFile\<close>); the
  trace of \<open>run\<close> holds the dispatcher's \<open>Start\<close> and \<open>Wait\<close> events.
\<close>

definition run :: "host \<Rightarrow> event list" where
  "run h =
     (let opts = read_options h
      in case validateInputs opts of
           Some e \<Rightarrow> [SetFailed (message e)]
         | None \<Rightarrow>
            (case installAmatl h (version opts) of
               (evs1, Inl e) \<Rightarrow> evs1 @ [SetFailed (message e)]
             | (evs1, Inr amatLPath) \<Rightarrow>
                (case findMarkdownFiles h (patterns opts) (ignore opts) of
                   (evs2, markdownFiles) \<Rightarrow>
                     if length markdownFiles = 0 then
                       evs1 @ evs2
                       @ [SetOutput ''files-processed'' ''0'', SetOutput ''output-files'' ''[]'']
                     else
                      (case processMarkdownFiles h amatLPath markdownFiles opts of
                         (evs3, Inl e) \<Rightarrow> evs1 @ evs2 @ evs3 @ [SetFailed (message e)]
                       | (evs3, Inr result) \<Rightarrow>
                           evs1 @ evs2 @ evs3
                           @ [SetOutput ''files-processed'' (show_nat (filesProcessed result)),
                              SetOutput ''output-files''
                                (json_stringify h (outputFiles result))]))))"

subsection \<open>A concrete host for worked examples\<close>

text \<open>
  \<open>string-argv\<close> on text without quotes splits at white space; \<open>JSON.stringify\<close> on
  strings that need no escaping puts them in double quotes between brackets.
\<close>

fun split_words :: "string \<Rightarrow> string \<Rightarrow> string list" where
  "split_words w [] = (if w = [] then [] else [w])"
| "split_words w (c # cs) =
     (if is_space c then (if w = [] then split_words [] cs else w # split_words [] cs)
      else split_words (w @ [c]) cs)"

fun json_items :: "string list \<Rightarrow> string" where
  "json_items [] = []"
| "json_items [s] = [CHR 0x22] @ s @ [CHR 0x22]"
| "json_items (s # t) = [CHR 0x22] @ s @ [CHR 0x22] @ '','' @ json_items t"

definition demo_host :: host where
  "demo_host =
     \<lparr>platform = ''linux'', arch = ''x64'', cwd = ''/w'', workspace = ''/w'', cpus = 2,
      getInput = (\<lambda>name. []),
      tc_find = (\<lambda>tool ver. []),
      fetch_latest = FetchRejects (Error ''fetch failed''),
      downloadTool = (\<lambda>url. Inr ''/tmp/download''),
      extractTar = (\<lambda>file. Inr ''/tmp/extracted''),
      cacheDir = (\<lambda>dir tool ver. Inr (''/cache/'' @ tool @ ''/'' @ ver)),
      exec = (\<lambda>tool args. None),
      mkdirP = (\<lambda>dir. None),
      glob = (\<lambda>pattern ign nodir. []),
      stringArgv = split_words [],
      json_stringify = (\<lambda>xs. ''['' @ json_items xs @ '']''),
      completion = (\<lambda>w. [])\<rparr>"

text \<open>
  A small model of \<open>glob\<close> for worked examples, over a fixed list of files given by
  their paths relative to the working directory (files only, so \<open>nodir\<close> changes
  nothing). Patterns are made of literal characters, \<open>?\<close>, \<open>*\<close> inside a segment
  and \<open>**\<close> for any number of segments. As in \<open>glob\<close>, \<open>*\<close> and \<open>**\<close> do not match
  a segment that starts with a dot unless \<open>dot\<close> is set, which \<open>glob\<close> does for the
  entries of its \<open>ignore\<close> option; a match that an ignore entry matches is dropped.
\<close>

fun wild :: "string \<Rightarrow> string \<Rightarrow> bool" where
  "wild [] s = (s = [])"
| "wild (c # p) s =
     (if c = CHR ''*'' then
        (wild p s \<or> (case s of [] \<Rightarrow> False | d # t \<Rightarrow> wild (c # p) t))
      else (case s of [] \<Rightarrow> False | d # t \<Rightarrow> (c = CHR ''?'' \<or> c = d) \<and> wild p t))"

definition hidden :: "string \<Rightarrow> bool" where
  "hidden seg = (case seg of [] \<Rightarrow> False | d # t \<Rightarrow> d = CHR ''.'')"

definition seg_match :: "bool \<Rightarrow> string \<Rightarrow> string \<Rightarrow> bool" where
  "seg_match dot p seg =
     (seg \<noteq> [] \<and> wild p seg \<and> (if hidden seg then dot \<or> hidden p else True))"

fun match_segs :: "bool \<Rightarrow> string list \<Rightarrow> string list \<Rightarrow> bool" where
  "match_segs dot [] segs = (segs = [])"
| "match_segs dot (p # ps) segs =
     (if p = ''**'' then
        (match_segs dot ps segs
         \<or> (case segs of
               [] \<Rightarrow> False
             | seg # rest \<Rightarrow> (if hidden seg then dot else True) \<and> match_segs dot (p # ps) rest))
      else (case segs of
              [] \<Rightarrow> False
            | seg # rest \<Rightarrow> seg_match dot p seg \<and> match_segs dot ps rest))"

definition glob_match :: "bool \<Rightarrow> string \<Rightarrow> string \<Rightarrow> bool" where
  "glob_match dot pat m = match_segs dot (split_on CHR ''/'' pat) (split_on CHR ''/'' m)"

definition demo_glob :: "string list \<Rightarrow> string \<Rightarrow> string list \<Rightarrow> bool \<Rightarrow> string list" where
  "demo_glob fs pat ig nd =
     filter (\<lambda>m. glob_match False pat m \<and> \<not> list_ex (\<lambda>i. glob_match True i m) ig) fs"

definition demo_files :: "string list" where
  "demo_files =
     [''a.md'', ''node_modules/x.md'', ''.git/y.md'', ''sub/b.md'', ''sub/node_modules/z.md'']"

definition demo_inputs :: "string \<Rightarrow> string" where
  "demo_inputs name =
     (if name = ''patterns'' then ''*.md''
      else if name = ''output-dir'' then ''out''
      else if name = ''format'' then ''html''
      else if name = ''amatl-version'' then ''latest''
      else [])"

subsection \<open>Vocabulary of the statements\<close>

text \<open>Events that report a failed run, and events that only the batch processor emits.\<close>

fun is_failure :: "event \<Rightarrow> bool" where
  "is_failure (SetFailed m) = True"
| "is_failure _ = False"

fun is_batch_event :: "event \<Rightarrow> bool" where
  "is_batch_event (MkdirP d) = True"
| "is_batch_event (Start f) = True"
| "is_batch_event (Wait fs) = True"
| "is_batch_event _ = False"

text \<open>Options and files for worked examples.\<close>

definition demo_options :: AmatlOptions where
  "demo_options =
     \<lparr>patterns = ''*.md'', ignore = [], outputDir = ''out'', format = ''html'',
      layout = None, vars = None, version = ''latest'', config = None,
      additionalArgs = None\<rparr>"

definition five_files :: "string list" where
  "five_files = [''a.md'', ''b.md'', ''c.md'', ''d.md'', ''e.md'']"

text \<open>
  What a trace says about the dispatcher: the batches that were jointly awaited, in
  the order of the waits, and the files whose job was started, in the order of the
  calls.
\<close>

fun windows :: "event list \<Rightarrow> string list list" where
  "windows [] = []"
| "windows (Wait fs # es) = fs # windows es"
| "windows (e # es) = windows es"

fun started :: "event list \<Rightarrow> string list" where
  "started [] = []"
| "started (Start f # es) = f # started es"
| "started (e # es) = started es"

text \<open>The output paths that the job of a file returns (none when the job throws).\<close>

definition job_outputs :: "host \<Rightarrow> string \<Rightarrow> AmatlOptions \<Rightarrow> string \<Rightarrow> string list" where
  "job_outputs h amatlPath opts file =
     (case snd (processMarkdownFile h amatlPath file opts) of
        Inl e \<Rightarrow> []
      | Inr r \<Rightarrow> outputFiles r)"

text \<open>The value a promise is fulfilled with, if it is fulfilled.\<close>

definition result_of :: "promise \<Rightarrow> ProcessResult option" where
  "result_of p = (case snd p of Inl e \<Rightarrow> None | Inr r \<Rightarrow> Some r)"

text \<open>Every promise of a batch is the job of the file it is tagged with.\<close>

definition own_jobs :: "host \<Rightarrow> string \<Rightarrow> AmatlOptions \<Rightarrow> promise list \<Rightarrow> bool" where
  "own_jobs h amatlPath opts b =
     (b = map (\<lambda>f. (f, snd (processMarkdownFile h amatlPath f opts))) (map fst b))"

text \<open>A job in which the \<open>pdf\<close> invocation fails, and options for three formats.\<close>

definition pdf_fails :: "string \<Rightarrow> string list \<Rightarrow> error option" where
  "pdf_fails tool args =
     (if ''pdf'' \<in> set args then Some (Error ''The process failed with exit code 1'') else None)"

definition three_formats :: AmatlOptions where
  "three_formats = demo_options\<lparr>format := ''html,pdf,markdown''\<rparr>"

text \<open>Options whose additional arguments carry a layout flag of their own.\<close>

definition with_extra_layout :: AmatlOptions where
  "with_extra_layout =
     demo_options\<lparr>format := ''markdown'', layout := Some ''amatl://document.html'',
                  additionalArgs := Some ''--html-layout x''\<rparr>"

text \<open>
  Normal forms of \<open>normalizeString\<close>: some leading \<open>..\<close> (only where the path may
  climb above its start), then segments that are neither empty, \<open>.\<close> nor \<open>..\<close>.
\<close>

definition plain_seg :: "string \<Rightarrow> bool" where
  "plain_seg s = (s \<noteq> [] \<and> s \<noteq> ''.'' \<and> s \<noteq> ''..'' \<and> CHR ''/'' \<notin> set s)"

definition normal_segs :: "bool \<Rightarrow> string list \<Rightarrow> bool" where
  "normal_segs allowAboveRoot S =
     (\<exists>k R. S = replicate k ''..'' @ R \<and> (\<forall>s \<in> set R. plain_seg s) \<and> (0 < k \<longrightarrow> allowAboveRoot))"

text \<open>No job of the given files throws.\<close>

definition jobs_succeed :: "host \<Rightarrow> string \<Rightarrow> AmatlOptions \<Rightarrow> string list \<Rightarrow> bool" where
  "jobs_succeed h amatlPath opts fs =
     list_all (\<lambda>f. case snd (processMarkdownFile h amatlPath f opts) of
                      Inl e \<Rightarrow> False | Inr r \<Rightarrow> True) fs"

section \<open>Theorems\<close>

subsection \<open>Installer\<close>

text \<open>
  Claim C5. On a cache miss, \<open>installAmatl\<close> maps the platform \<open>linux\<close> to \<open>linux\<close>,
  \<open>darwin\<close> to \<open>darwin\<close>, \<open>win32\<close> to \<open>windows\<close>, and the architecture \<open>x64\<close> to
  \<open>amd64\<close>, \<open>arm64\<close> to \<open>arm64\<close>. Any other platform throws
  \<open>Unsupported platform\<close>, any other architecture \<open>Unsupported architecture\<close>,
  before anything is fetched or downloaded; there is no fallback value. With both
  supported, the download is made for the mapped names.
\<close>

theorem installAmatl_platform_arch:
  assumes miss: "tc_find h ''amatl'' ver = []"
  shows "osName_of ''linux'' = Inr ''linux'' \<and> osName_of ''darwin'' = Inr ''darwin''
       \<and> osName_of ''win32'' = Inr ''windows''
       \<and> archName_of ''x64'' = Inr ''amd64'' \<and> archName_of ''arm64'' = Inr ''arm64''
       \<and> installAmatl h ver =
          (if platform h \<notin> {''linux'', ''darwin'', ''win32''} then
             ([], Inl (Error (''Unsupported platform: '' @ platform h)))
           else if arch h \<notin> {''x64'', ''arm64''} then
             ([], Inl (Error (''Unsupported architecture: '' @ arch h)))
           else
             (case (if ver = ''latest'' then getLatestAmatlVersion h else Some ver) of
                None \<Rightarrow> ([], Inl undefined_replace)
              | Some v \<Rightarrow>
                  install_download h v
                    (if platform h = ''win32'' then ''windows'' else platform h)
                    (if arch h = ''x64'' then ''amd64'' else ''arm64'')))"
proof -
  have maps: "osName_of ''linux'' = Inr ''linux''" "osName_of ''darwin'' = Inr ''darwin''"
    "osName_of ''win32'' = Inr ''windows''"
    "archName_of ''x64'' = Inr ''amd64''" "archName_of ''arm64'' = Inr ''arm64''"
    by (simp_all add: osName_of_def archName_of_def)
  have inst: "installAmatl h ver =
          (if platform h \<notin> {''linux'', ''darwin'', ''win32''} then
             ([], Inl (Error (''Unsupported platform: '' @ platform h)))
           else if arch h \<notin> {''x64'', ''arm64''} then
             ([], Inl (Error (''Unsupported architecture: '' @ arch h)))
           else
             (case (if ver = ''latest'' then getLatestAmatlVersion h else Some ver) of
                None \<Rightarrow> ([], Inl undefined_replace)
              | Some v \<Rightarrow>
                  install_download h v
                    (if platform h = ''win32'' then ''windows'' else platform h)
                    (if arch h = ''x64'' then ''amd64'' else ''arm64'')))"
    using miss
    by (auto simp: installAmatl_def osName_of_def archName_of_def split: option.splits)
  from maps inst show ?thesis by blast
qed

text \<open>
  The witness: a cache miss on FreeBSD, on a 32-bit Intel machine, and on Windows on ARM.
\<close>

theorem installAmatl_platform_arch_witness:
  "tc_find (demo_host\<lparr>platform := ''freebsd''\<rparr>) ''amatl'' ''v0.25.1'' = []
   \<and> installAmatl (demo_host\<lparr>platform := ''freebsd''\<rparr>) ''v0.25.1''
       = ([], Inl (Error ''Unsupported platform: freebsd''))
   \<and> tc_find (demo_host\<lparr>arch := ''ia32''\<rparr>) ''amatl'' ''v0.25.1'' = []
   \<and> installAmatl (demo_host\<lparr>arch := ''ia32''\<rparr>) ''v0.25.1''
       = ([], Inl (Error ''Unsupported architecture: ia32''))
   \<and> tc_find (demo_host\<lparr>platform := ''win32'', arch := ''arm64''\<rparr>) ''amatl'' ''v0.25.1'' = []
   \<and> installAmatl (demo_host\<lparr>platform := ''win32'', arch := ''arm64''\<rparr>) ''v0.25.1''
       = install_download (demo_host\<lparr>platform := ''win32'', arch := ''arm64''\<rparr>)
           ''v0.25.1'' ''windows'' ''arm64''"
proof -
  have m1: "tc_find (demo_host\<lparr>platform := ''freebsd''\<rparr>) ''amatl'' ''v0.25.1'' = []"
    and m2: "tc_find (demo_host\<lparr>arch := ''ia32''\<rparr>) ''amatl'' ''v0.25.1'' = []"
    and m3: "tc_find (demo_host\<lparr>platform := ''win32'', arch := ''arm64''\<rparr>) ''amatl'' ''v0.25.1'' = []"
    by (simp_all add: demo_host_def)
  show ?thesis
    using installAmatl_platform_arch [OF m1] installAmatl_platform_arch [OF m2]
      installAmatl_platform_arch [OF m3] m1 m2 m3
    by (simp add: demo_host_def)
qed

text \<open>
  Claim C6. When the version is \<open>latest\<close> and the metadata query fails with an
  exception (\<open>fetch\<close> rejects, or parsing the response does), version resolution
  returns the hard-coded \<open>v0.25.1\<close>; the error is not propagated, and on a supported
  platform the installation goes on to download that version.
\<close>

theorem latest_version_fallback:
  assumes "fetch_latest h = FetchRejects e \<or> fetch_latest h = JsonRejects e"
  shows "getLatestAmatlVersion h = Some ''v0.25.1''
       \<and> (tc_find h ''amatl'' ''latest'' = [] \<longrightarrow> osName_of (platform h) = Inr os
            \<longrightarrow> archName_of (arch h) = Inr ar
            \<longrightarrow> installAmatl h ''latest'' = install_download h ''v0.25.1'' os ar)"
  using assms by (auto simp: getLatestAmatlVersion_def installAmatl_def)

text \<open>The witness: the example host, whose \<open>fetch\<close> rejects.\<close>

theorem latest_version_fallback_witness:
  "fetch_latest demo_host = FetchRejects (Error ''fetch failed'')
   \<and> getLatestAmatlVersion demo_host = Some ''v0.25.1''
   \<and> installAmatl demo_host ''latest'' =
       ([Download ''https://github.com/Bornholm/amatl/releases/download/v0.25.1/amatl_0.25.1_linux_amd64.tar.gz'',
         ExtractTar ''/tmp/download'',
         CacheDir ''/tmp/extracted'' ''amatl'' ''v0.25.1'',
         Exec ''chmod'' [''+x'', ''/cache/amatl/v0.25.1/amatl'']],
        Inr ''/cache/amatl/v0.25.1/amatl'')"
proof -
  have f: "fetch_latest demo_host = FetchRejects (Error ''fetch failed'')
           \<or> fetch_latest demo_host = JsonRejects (Error ''fetch failed'')"
    by (simp add: demo_host_def)
  have m: "tc_find demo_host ''amatl'' ''latest'' = []" by (simp add: demo_host_def)
  have os: "osName_of (platform demo_host) = Inr ''linux''"
    by (simp add: demo_host_def osName_of_def)
  have ar: "archName_of (arch demo_host) = Inr ''amd64''"
    by (simp add: demo_host_def archName_of_def)
  have d: "install_download demo_host ''v0.25.1'' ''linux'' ''amd64'' =
       ([Download ''https://github.com/Bornholm/amatl/releases/download/v0.25.1/amatl_0.25.1_linux_amd64.tar.gz'',
         ExtractTar ''/tmp/download'',
         CacheDir ''/tmp/extracted'' ''amatl'' ''v0.25.1'',
         Exec ''chmod'' [''+x'', ''/cache/amatl/v0.25.1/amatl'']],
        Inr ''/cache/amatl/v0.25.1/amatl'')"
    by code_simp
  show ?thesis
    using latest_version_fallback [OF f, of "''linux''" "''amd64''"] m os ar d
    by (simp add: demo_host_def)
qed

subsection \<open>File discovery\<close>

lemma find_loop_events:
  "fst (find_loop h ign ps files) = map (\<lambda>p. Glob p glob_ignore True) ps"
  by (induction ps arbitrary: files) (simp_all add: Let_def case_prod_beta)

lemma find_loop_files:
  "snd (find_loop h ign ps files) =
     files @ concat (map (\<lambda>p. filter (not_ignored h ign) (glob h p glob_ignore True)) ps)"
  by (induction ps arbitrary: files) (simp_all add: Let_def case_prod_beta)

lemma count_list_append: "count_list (xs @ ys) a = count_list xs a + count_list ys a"
  by (induction xs) simp_all

lemma count_list_concat: "count_list (concat xss) a = sum_list (map (\<lambda>xs. count_list xs a) xss)"
  by (induction xss) (simp_all add: count_list_append)

text \<open>
  Claim C9. For every newline-separated pattern list and ignore list,
  \<open>findMarkdownFiles\<close> returns the concatenation, in pattern order, of each
  pattern's matches (from \<open>glob\<close> called with \<open>nodir: true\<close>) without the matches
  whose path relative to the workspace is in the ignore set. Nothing is deduplicated
  across patterns: a file occurs as often as the patterns' kept matches hold it.
\<close>

theorem findMarkdownFiles_concat:
  "snd (findMarkdownFiles h pats ign) =
     concat (map (\<lambda>p. filter (\<lambda>m. path_relative (cwd h) (workspace h) m
                                      \<notin> set (split_on CHR 0x0A ign))
                         (glob h p [''node_modules/**'', ''.git/**''] True))
                 (split_on CHR 0x0A pats))
   \<and> count_list (snd (findMarkdownFiles h pats ign)) f =
       sum_list (map (\<lambda>p. count_list
                            (filter (\<lambda>m. path_relative (cwd h) (workspace h) m
                                           \<notin> set (split_on CHR 0x0A ign))
                               (glob h p [''node_modules/**'', ''.git/**''] True)) f)
                     (split_on CHR 0x0A pats))"
proof -
  have eq: "snd (findMarkdownFiles h pats ign) =
     concat (map (\<lambda>p. filter (\<lambda>m. path_relative (cwd h) (workspace h) m
                                      \<notin> set (split_on CHR 0x0A ign))
                         (glob h p [''node_modules/**'', ''.git/**''] True))
                 (split_on CHR 0x0A pats))"
    by (simp add: findMarkdownFiles_def find_loop_files not_ignored_def [abs_def] glob_ignore_def)
  show ?thesis
    unfolding eq by (simp add: count_list_concat comp_def)
qed

text \<open>
  Two runs on the example file system: \<open>sub/b.md\<close> is matched by both patterns and
  is returned twice; with \<open>sub/b.md\<close> in the ignore list, of \<open>a.md\<close> and \<open>sub/b.md\<close>
  only \<open>a.md\<close> is left.
\<close>

lemma findMarkdownFiles_example:
  "snd (findMarkdownFiles (demo_host\<lparr>glob := demo_glob demo_files\<rparr>)
          (''sub/*.md'' @ [CHR 0x0A] @ ''sub/b.*'') []) = [''sub/b.md'', ''sub/b.md'']
   \<and> snd (findMarkdownFiles (demo_host\<lparr>glob := demo_glob demo_files\<rparr>)
          (''*.md'' @ [CHR 0x0A] @ ''sub/*.md'') ''sub/b.md'') = [''a.md'']"
  by code_simp




subsection \<open>The entry point\<close>

lemma install_download_events:
  "e \<in> set (fst (install_download h v os ar)) \<Longrightarrow> \<not> is_failure e \<and> \<not> is_batch_event e"
  by (auto simp: install_download_def Let_def split: sum.splits option.splits if_splits)

lemma installAmatl_events:
  "e \<in> set (fst (installAmatl h v)) \<Longrightarrow> \<not> is_failure e \<and> \<not> is_batch_event e"
  using install_download_events
  by (auto simp: installAmatl_def Let_def split: sum.splits option.splits if_splits)

lemma findMarkdownFiles_events:
  "e \<in> set (fst (findMarkdownFiles h ps ign)) \<Longrightarrow> \<not> is_failure e \<and> \<not> is_batch_event e"
  by (auto simp: findMarkdownFiles_def find_loop_events)

text \<open>
  Claim C7. When the inputs are valid, the installer has returned and file discovery
  returns the empty list, \<open>run\<close> sets the output \<open>files-processed\<close> to \<open>0\<close> and
  \<open>output-files\<close> to \<open>[]\<close> and returns: it reports no failure, and the batch
  processor is not invoked (none of its events occurs).
\<close>

theorem run_no_files:
  assumes valid: "validateInputs (read_options h) = None"
    and inst: "installAmatl h (version (read_options h)) = (evs1, Inr amatlPath)"
    and found: "findMarkdownFiles h (patterns (read_options h)) (ignore (read_options h))
                  = (evs2, [])"
  shows "run h = evs1 @ evs2
                 @ [SetOutput ''files-processed'' ''0'', SetOutput ''output-files'' ''[]'']
       \<and> (\<forall>e \<in> set (run h). \<not> is_failure e \<and> \<not> is_batch_event e)"
proof -
  have r: "run h = evs1 @ evs2
                 @ [SetOutput ''files-processed'' ''0'', SetOutput ''output-files'' ''[]'']"
    using valid inst found by (simp add: run_def Let_def)
  have e1: "\<forall>e \<in> set evs1. \<not> is_failure e \<and> \<not> is_batch_event e"
    using installAmatl_events [of _ h "version (read_options h)"] inst by simp
  have e2: "\<forall>e \<in> set evs2. \<not> is_failure e \<and> \<not> is_batch_event e"
    using findMarkdownFiles_events [of _ h "patterns (read_options h)" "ignore (read_options h)"]
      found by simp
  from r e1 e2 show ?thesis by auto
qed

lemma demo_install:
  "installAmatl (demo_host\<lparr>getInput := demo_inputs\<rparr>) ''latest'' =
       ([Download ''https://github.com/Bornholm/amatl/releases/download/v0.25.1/amatl_0.25.1_linux_amd64.tar.gz'',
         ExtractTar ''/tmp/download'',
         CacheDir ''/tmp/extracted'' ''amatl'' ''v0.25.1'',
         Exec ''chmod'' [''+x'', ''/cache/amatl/v0.25.1/amatl'']],
        Inr ''/cache/amatl/v0.25.1/amatl'')"
  by code_simp

text \<open>The witness: the example host, whose \<open>glob\<close> finds nothing.\<close>

theorem run_no_files_witness:
  "validateInputs (read_options (demo_host\<lparr>getInput := demo_inputs\<rparr>)) = None
   \<and> snd (findMarkdownFiles (demo_host\<lparr>getInput := demo_inputs\<rparr>) ''*.md'' []) = []
   \<and> run (demo_host\<lparr>getInput := demo_inputs\<rparr>) =
       [Download ''https://github.com/Bornholm/amatl/releases/download/v0.25.1/amatl_0.25.1_linux_amd64.tar.gz'',
        ExtractTar ''/tmp/download'',
        CacheDir ''/tmp/extracted'' ''amatl'' ''v0.25.1'',
        Exec ''chmod'' [''+x'', ''/cache/amatl/v0.25.1/amatl''],
        Glob ''*.md'' [''node_modules/**'', ''.git/**''] True,
        SetOutput ''files-processed'' ''0'', SetOutput ''output-files'' ''[]'']"
proof -
  let ?h = "demo_host\<lparr>getInput := demo_inputs\<rparr>"
  have o: "read_options ?h =
      \<lparr>patterns = ''*.md'', ignore = [], outputDir = ''out'', format = ''html'',
       layout = None, vars = None, version = ''latest'', config = None,
       additionalArgs = None\<rparr>"
    by (simp add: read_options_def optional_input_def demo_inputs_def demo_host_def)
  have v: "validateInputs (read_options ?h) = None"
    unfolding o by code_simp
  have i: "installAmatl ?h (version (read_options ?h)) =
       ([Download ''https://github.com/Bornholm/amatl/releases/download/v0.25.1/amatl_0.25.1_linux_amd64.tar.gz'',
         ExtractTar ''/tmp/download'',
         CacheDir ''/tmp/extracted'' ''amatl'' ''v0.25.1'',
         Exec ''chmod'' [''+x'', ''/cache/amatl/v0.25.1/amatl'']],
        Inr ''/cache/amatl/v0.25.1/amatl'')"
    unfolding o using demo_install by simp
  have f: "findMarkdownFiles ?h (patterns (read_options ?h)) (ignore (read_options ?h)) =
       ([Glob ''*.md'' [''node_modules/**'', ''.git/**''] True], [])"
    unfolding o by (simp add: findMarkdownFiles_def demo_host_def glob_ignore_def)
  show ?thesis
    using run_no_files [OF v i f] v f o by simp
qed

subsection \<open>The dispatcher\<close>

text \<open>\<open>Promise.all\<close> fulfils with the values in array order, whatever the settling order.\<close>

lemma settle_length:
  "settle order b slots = Inr slots' \<Longrightarrow> length slots' = length slots"
  by (induction order arbitrary: slots) (auto split: if_splits sum.splits)

lemma settle_Inr:
  "settle order b slots = Inr slots' \<Longrightarrow> i < length slots \<Longrightarrow> length slots = length b \<Longrightarrow>
     slots' ! i = (if i \<in> set order then result_of (b ! i) else slots ! i)
     \<and> (i \<in> set order \<longrightarrow> result_of (b ! i) \<noteq> None)"
proof (induction order arbitrary: slots)
  case Nil
  then show ?case by simp
next
  case (Cons j order)
  show ?case
  proof (cases "j < length b")
    case False
    with Cons.prems have "settle order b slots = Inr slots'" by simp
    from Cons.IH [OF this Cons.prems(2,3)] False Cons.prems(2,3) show ?thesis by auto
  next
    case True
    with Cons.prems(1) obtain r where r: "snd (b ! j) = Inr r"
      and s: "settle order b (slots[j := Some r]) = Inr slots'"
      by (auto split: sum.splits)
    have rj: "result_of (b ! j) = Some r" using r by (simp add: result_of_def)
    from Cons.IH [OF s] Cons.prems(2,3)
    have ih: "slots' ! i = (if i \<in> set order then result_of (b ! i) else slots[j := Some r] ! i)
              \<and> (i \<in> set order \<longrightarrow> result_of (b ! i) \<noteq> None)"
      by simp
    show ?thesis
    proof (cases "i = j")
      case True
      with ih rj Cons.prems(2) show ?thesis by auto
    next
      case False
      with ih show ?thesis by auto
    qed
  qed
qed

lemma set_complete_order: "set (complete_order n proposal) = {0..<n}"
  by (auto simp: complete_order_def Let_def)

lemma promise_all_Inr:
  assumes "promise_all proposal b = Inr rs"
  shows "map snd b = map Inr rs"
proof -
  let ?ord = "complete_order (length b) proposal"
  from assms obtain slots' where s: "settle ?ord b (replicate (length b) None) = Inr slots'"
    and rs: "rs = List.map_filter (\<lambda>x. x) slots'"
    by (auto simp: promise_all_def split: sum.splits)
  have len: "length slots' = length b" using settle_length [OF s] by simp
  have each: "slots' ! i = result_of (b ! i) \<and> result_of (b ! i) \<noteq> None" if "i < length b" for i
    using settle_Inr [OF s, of i] that by (simp add: set_complete_order)
  have slots: "slots' = map result_of b"
    by (rule nth_equalityI) (use len each in auto)
  have all: "\<forall>p \<in> set b. result_of p \<noteq> None"
    using each by (metis in_set_conv_nth)
  have "map snd b = map Inr (List.map_filter (\<lambda>x. x) (map result_of b))"
    using all
  proof (induction b)
    case Nil
    then show ?case by (simp add: List.map_filter_simps)
  next
    case (Cons p b)
    then show ?case
      by (auto simp: List.map_filter_simps result_of_def split: sum.splits)
  qed
  with rs slots show ?thesis by simp
qed

lemma settle_all_Inr:
  "map snd b = map Inr rs \<Longrightarrow> length slots = length b \<Longrightarrow> \<exists>slots'. settle order b slots = Inr slots'"
proof (induction order arbitrary: slots)
  case Nil
  then show ?case by simp
next
  case (Cons j order)
  show ?case
  proof (cases "j < length b")
    case False
    with Cons show ?thesis by simp
  next
    case True
    have "length rs = length b" using Cons.prems(1) by (metis length_map)
    with True Cons.prems(1) have "snd (b ! j) = Inr (rs ! j)"
      by (metis nth_map)
    with True Cons.IH [OF Cons.prems(1), of "slots[j := Some (rs ! j)]"] Cons.prems(2)
    show ?thesis by simp
  qed
qed

lemma promise_all_complete:
  assumes "map snd b = map Inr rs"
  shows "promise_all proposal b = Inr rs"
proof -
  obtain slots' where
    s: "settle (complete_order (length b) proposal) b (replicate (length b) None) = Inr slots'"
    using settle_all_Inr [OF assms, of "replicate (length b) None"] by auto
  then obtain rs' where p: "promise_all proposal b = Inr rs'"
    by (simp add: promise_all_def)
  from promise_all_Inr [OF p] assms have "map Inr rs' = (map Inr rs :: (error + ProcessResult) list)"
    by simp
  then have "rs' = rs" by (simp add: inj_map_eq_map)
  with p show ?thesis by simp
qed

lemma promise_all_order_irrelevant:
  "promise_all proposal b = Inr rs \<Longrightarrow> promise_all proposal' b = Inr rs"
  using promise_all_Inr promise_all_complete by blast

lemma merge_results_fields:
  "outs (merge_results rs d) = outs d @ concat (map outputFiles rs)
   \<and> processed (merge_results rs d) = processed d + sum_list (map filesProcessed rs)
   \<and> batch (merge_results rs d) = batch d \<and> waits (merge_results rs d) = waits d"
  by (induction rs arbitrary: d) simp_all

lemma own_jobs_append:
  "own_jobs h ap opts b \<Longrightarrow>
   own_jobs h ap opts (b @ [(f, snd (processMarkdownFile h ap f opts))])"
  by (simp add: own_jobs_def)

lemma own_jobs_outputs:
  assumes own: "own_jobs h ap opts b" and all: "promise_all proposal b = Inr rs"
  shows "map outputFiles rs = map (job_outputs h ap opts) (map fst b)"
proof -
  have m: "map snd b = map Inr rs" by (rule promise_all_Inr [OF all])
  have len: "length rs = length b" using m by (metis length_map)
  show ?thesis
  proof (rule nth_equalityI)
    show "length (map outputFiles rs) = length (map (job_outputs h ap opts) (map fst b))"
      using len by simp
  next
    fix i assume "i < length (map outputFiles rs)"
    then have i: "i < length b" using len by simp
    have "b ! i = (fst (b ! i), snd (processMarkdownFile h ap (fst (b ! i)) opts))"
      using own i unfolding own_jobs_def by (metis (no_types, lifting) length_map nth_map)
    then have "snd (b ! i) = snd (processMarkdownFile h ap (fst (b ! i)) opts)"
      by (metis snd_conv)
    moreover have "snd (b ! i) = Inr (rs ! i)"
      using m i len by (metis nth_map)
    ultimately have "snd (processMarkdownFile h ap (fst (b ! i)) opts) = Inr (rs ! i)"
      by simp
    then have "job_outputs h ap opts (fst (b ! i)) = outputFiles (rs ! i)"
      by (simp add: job_outputs_def)
    with i len show "map outputFiles rs ! i = map (job_outputs h ap opts) (map fst b) ! i"
      by simp
  qed
qed

lemma dispatch_loop_order:
  "dispatch_loop h ap opts k files d = (evs, Inr d') \<Longrightarrow> own_jobs h ap opts (batch d) \<Longrightarrow>
     own_jobs h ap opts (batch d')
     \<and> outs d' = outs d @ concat (map (\<lambda>w. concat (map (job_outputs h ap opts) w)) (windows evs))
     \<and> map fst (batch d) @ started evs = concat (windows evs) @ map fst (batch d')
     \<and> subseq (started evs) files"
proof (induction files arbitrary: d evs)
  case Nil
  then show ?case by simp
next
  case (Cons f rest)
  show ?case
  proof (cases "int (length (batch d)) < k")
    case True
    let ?p = "(f, snd (processMarkdownFile h ap f opts))"
    let ?d = "d\<lparr>batch := batch d @ [?p]\<rparr>"
    from Cons.prems(1) True obtain evs' where
      rec: "dispatch_loop h ap opts k rest ?d = (evs', Inr d')" and evs: "evs = Start f # evs'"
      by (auto simp: Let_def split: prod.splits)
    have own: "own_jobs h ap opts (batch ?d)"
      using own_jobs_append [OF Cons.prems(2)] by simp
    from Cons.IH [OF rec own] evs show ?thesis by simp
  next
    case False
    from Cons.prems(1) False obtain results evs' where
      all: "promise_all (completion h (waits d)) (batch d) = Inr results"
      and rec: "dispatch_loop h ap opts k rest
                  ((merge_results results d)\<lparr>batch := [], waits := Suc (waits d)\<rparr>) = (evs', Inr d')"
      and evs: "evs = Wait (map fst (batch d)) # evs'"
      by (auto simp: Let_def split: sum.splits prod.splits)
    let ?d = "(merge_results results d)\<lparr>batch := [], waits := Suc (waits d)\<rparr>"
    have own: "own_jobs h ap opts (batch ?d)" by (simp add: own_jobs_def)
    have o: "outs ?d = outs d @ concat (map (job_outputs h ap opts) (map fst (batch d)))"
      using own_jobs_outputs [OF Cons.prems(2) all] by (simp add: merge_results_fields)
    from Cons.IH [OF rec own]
    have ih1: "own_jobs h ap opts (batch d')"
      and ih2: "outs d' = outs ?d
                  @ concat (map (\<lambda>w. concat (map (job_outputs h ap opts) w)) (windows evs'))"
      and ih3: "map fst (batch ?d) @ started evs' = concat (windows evs') @ map fst (batch d')"
      and ih4: "subseq (started evs') rest"
      by blast+
    have c2: "outs d' = outs d
                @ concat (map (\<lambda>w. concat (map (job_outputs h ap opts) w)) (windows evs))"
      using ih2 o evs by simp
    have c3: "map fst (batch d) @ started evs = concat (windows evs) @ map fst (batch d')"
      using ih3 evs by simp
    have c4: "subseq (started evs) (f # rest)"
      using ih4 evs by (simp add: list_emb_Cons)
    from ih1 c2 c3 c4 show ?thesis by blast
  qed
qed

lemma final_wait_order:
  assumes "final_wait h d = (evs, Inr d')" and "own_jobs h ap opts (batch d)"
  shows "outs d' = outs d @ concat (map (\<lambda>w. concat (map (job_outputs h ap opts) w)) (windows evs))
       \<and> started evs = [] \<and> concat (windows evs) = map fst (batch d)"
proof (cases "length (batch d) > 0")
  case False
  with assms(1) show ?thesis by (simp add: final_wait_def)
next
  case True
  with assms(1) obtain results where
    all: "promise_all (completion h (waits d)) (batch d) = Inr results"
    and d': "d' = (merge_results results d)\<lparr>waits := Suc (waits d)\<rparr>"
    and evs: "evs = [Wait (map fst (batch d))]"
    by (auto simp: final_wait_def split: sum.splits)
  show ?thesis
    using own_jobs_outputs [OF assms(2) all] d' evs by (simp add: merge_results_fields)
qed

lemma windows_append: "windows (xs @ ys) = windows xs @ windows ys"
  by (induction xs rule: windows.induct) simp_all

lemma started_append: "started (xs @ ys) = started xs @ started ys"
  by (induction xs rule: started.induct) simp_all

lemma dispatch_order:
  assumes "dispatch h ap opts k files = (evs, Inr d)"
  shows "outs d = concat (map (\<lambda>w. concat (map (job_outputs h ap opts) w)) (windows evs))
       \<and> started evs = concat (windows evs) \<and> subseq (started evs) files"
proof -
  let ?d0 = "\<lparr>batch = [], outs = [], processed = 0, waits = 0\<rparr>"
  from assms obtain evs1 d1 evs2 where
    loop: "dispatch_loop h ap opts k files ?d0 = (evs1, Inr d1)"
    and fin: "final_wait h d1 = (evs2, Inr d)" and evs: "evs = evs1 @ evs2"
    by (auto simp: dispatch_def split: prod.splits sum.splits)
  have own0: "own_jobs h ap opts (batch ?d0)" by (simp add: own_jobs_def)
  note L = dispatch_loop_order [OF loop own0, simplified]
  from L have l1: "own_jobs h ap opts (batch d1)"
    and l2: "outs d1 = concat (map (\<lambda>w. concat (map (job_outputs h ap opts) w)) (windows evs1))"
    and l3: "started evs1 = concat (windows evs1) @ map fst (batch d1)"
    and l4: "subseq (started evs1) files"
    by blast+
  note F = final_wait_order [OF fin l1]
  from F have f1: "outs d = outs d1
              @ concat (map (\<lambda>w. concat (map (job_outputs h ap opts) w)) (windows evs2))"
    and f2: "started evs2 = []" and f3: "concat (windows evs2) = map fst (batch d1)"
    by blast+
  have c1: "outs d = concat (map (\<lambda>w. concat (map (job_outputs h ap opts) w)) (windows evs))"
    using l2 f1 evs by (simp add: windows_append)
  have c2: "started evs = concat (windows evs)"
    using l3 f2 f3 evs by (simp add: windows_append started_append)
  have c3: "subseq (started evs) files"
    using l4 f2 evs by (simp add: started_append)
  from c1 c2 c3 show ?thesis by blast
qed

lemma format_loop_completion:
  "format_loop (h\<lparr>completion := c\<rparr>) ap f opts fmts acc = format_loop h ap f opts fmts acc"
proof (induction fmts arbitrary: acc)
  case Nil
  show ?case by simp
next
  case (Cons fmt fmts)
  have x: "extra_args (h\<lparr>completion := c\<rparr>) a = extra_args h a" for a
    by (cases a) simp_all
  have a: "render_args (h\<lparr>completion := c\<rparr>) f opts fmt = render_args h f opts fmt"
    by (simp add: render_args_def outputFile_of_def outputSubDir_of_def x)
  have o: "outputFile_of (h\<lparr>completion := c\<rparr>) f opts fmt = outputFile_of h f opts fmt"
    by (simp add: outputFile_of_def outputSubDir_of_def)
  show ?case by (simp add: a o Cons.IH Let_def split: option.splits)
qed

lemma processMarkdownFile_completion:
  "processMarkdownFile (h\<lparr>completion := c\<rparr>) ap f opts = processMarkdownFile h ap f opts"
  by (simp add: processMarkdownFile_def format_loop_completion outputSubDir_of_def Let_def
           split: option.splits)

lemma dispatch_loop_completion:
  "dispatch_loop h ap opts k files d = (evs, Inr d') \<Longrightarrow>
   dispatch_loop (h\<lparr>completion := c\<rparr>) ap opts k files d = (evs, Inr d')"
proof (induction files arbitrary: d evs)
  case Nil
  then show ?case by simp
next
  case (Cons f rest)
  show ?case
  proof (cases "int (length (batch d)) < k")
    case True
    let ?p = "(f, snd (processMarkdownFile h ap f opts))"
    from Cons.prems True obtain evs' where
      rec: "dispatch_loop h ap opts k rest (d\<lparr>batch := batch d @ [?p]\<rparr>) = (evs', Inr d')"
      and evs: "evs = Start f # evs'"
      by (auto simp: Let_def split: prod.splits)
    from Cons.IH [OF rec] evs True show ?thesis
      by (simp add: processMarkdownFile_completion)
  next
    case False
    from Cons.prems False obtain results evs' where
      all: "promise_all (completion h (waits d)) (batch d) = Inr results"
      and rec: "dispatch_loop h ap opts k rest
                  ((merge_results results d)\<lparr>batch := [], waits := Suc (waits d)\<rparr>) = (evs', Inr d')"
      and evs: "evs = Wait (map fst (batch d)) # evs'"
      by (auto simp: Let_def split: sum.splits prod.splits)
    have all': "promise_all (c (waits d)) (batch d) = Inr results"
      by (rule promise_all_order_irrelevant [OF all])
    from Cons.IH [OF rec] evs False all' show ?thesis by simp
  qed
qed

lemma final_wait_completion:
  assumes "final_wait h d = (evs, Inr d')"
  shows "final_wait (h\<lparr>completion := c\<rparr>) d = (evs, Inr d')"
proof (cases "length (batch d) > 0")
  case False
  with assms show ?thesis by (simp add: final_wait_def)
next
  case True
  with assms obtain results where
    all: "promise_all (completion h (waits d)) (batch d) = Inr results"
    and d': "d' = (merge_results results d)\<lparr>waits := Suc (waits d)\<rparr>"
    and evs: "evs = [Wait (map fst (batch d))]"
    by (auto simp: final_wait_def split: sum.splits)
  have "promise_all (c (waits d)) (batch d) = Inr results"
    by (rule promise_all_order_irrelevant [OF all])
  with True d' evs show ?thesis by (simp add: final_wait_def)
qed

lemma dispatch_completion:
  assumes "dispatch h ap opts k files = (evs, Inr d)"
  shows "dispatch (h\<lparr>completion := c\<rparr>) ap opts k files = (evs, Inr d)"
proof -
  let ?d0 = "\<lparr>batch = [], outs = [], processed = 0, waits = 0\<rparr>"
  from assms obtain evs1 d1 evs2 where
    loop: "dispatch_loop h ap opts k files ?d0 = (evs1, Inr d1)"
    and fin: "final_wait h d1 = (evs2, Inr d)" and evs: "evs = evs1 @ evs2"
    by (auto simp: dispatch_def split: prod.splits sum.splits)
  show ?thesis
    using dispatch_loop_completion [OF loop, of c] final_wait_completion [OF fin, of c] evs
    by (simp add: dispatch_def)
qed

text \<open>
  Claim C8. For every run of \<open>processMarkdownFiles\<close> that returns, the merged
  \<open>outputFiles\<close> is the concatenation, window after window in the order of the
  joint waits, of the outputs of the window's jobs in array order; the array order
  is the order in which the jobs were started, which follows the input order. The
  same trace and result are obtained for every settling order of the jobs.
\<close>

theorem merged_outputs_in_window_order:
  assumes "processMarkdownFiles h amatlPath files opts = (evs, Inr r)"
  shows "outputFiles r =
           concat (map (\<lambda>w. concat (map (job_outputs h amatlPath opts) w)) (windows evs))
       \<and> started evs = concat (windows evs)
       \<and> subseq (started evs) files
       \<and> processMarkdownFiles (h\<lparr>completion := c\<rparr>) amatlPath files opts = (evs, Inr r)"
proof -
  from assms obtain evs' d where
    mk: "mkdirP h (outputDir opts) = None"
    and dis: "dispatch h amatlPath opts (batchSize h) files = (evs', Inr d)"
    and evs: "evs = MkdirP (outputDir opts) # evs'"
    and r: "r = \<lparr>filesProcessed = processed d, outputFiles = outs d\<rparr>"
    by (auto simp: processMarkdownFiles_def split: option.splits prod.splits sum.splits)
  have b: "batchSize (h\<lparr>completion := c\<rparr>) = batchSize h" by (simp add: batchSize_def)
  have ind: "processMarkdownFiles (h\<lparr>completion := c\<rparr>) amatlPath files opts = (evs, Inr r)"
    using dispatch_completion [OF dis, of c] mk evs r by (simp add: processMarkdownFiles_def b)
  from dispatch_order [OF dis]
  have d1: "outs d = concat (map (\<lambda>w. concat (map (job_outputs h amatlPath opts) w)) (windows evs'))"
    and d2: "started evs' = concat (windows evs')" and d3: "subseq (started evs') files"
    by blast+
  have c1: "outputFiles r =
           concat (map (\<lambda>w. concat (map (job_outputs h amatlPath opts) w)) (windows evs))"
    using d1 evs r by simp
  have c2: "started evs = concat (windows evs)" using d2 evs by simp
  have c3: "subseq (started evs) files" using d3 evs by simp
  from c1 c2 c3 ind show ?thesis by blast
qed

text \<open>
  The witness: five files on a host with three processors, once with the jobs
  settling in array order and once with the second job of each batch settling first.
\<close>

lemma demo_three_cpus:
  "processMarkdownFiles (demo_host\<lparr>cpus := 3\<rparr>) ''amatl'' five_files demo_options =
     ([MkdirP ''out'', Start ''a.md'', Start ''b.md'', Wait [''a.md'', ''b.md''],
       Start ''d.md'', Start ''e.md'', Wait [''d.md'', ''e.md'']],
      Inr \<lparr>filesProcessed = 4,
           outputFiles = [''out/a.html'', ''out/b.html'', ''out/d.html'', ''out/e.html'']\<rparr>)"
  by code_simp

theorem merged_outputs_in_window_order_witness:
  "processMarkdownFiles (demo_host\<lparr>cpus := 3\<rparr>) ''amatl'' five_files demo_options =
     ([MkdirP ''out'', Start ''a.md'', Start ''b.md'', Wait [''a.md'', ''b.md''],
       Start ''d.md'', Start ''e.md'', Wait [''d.md'', ''e.md'']],
      Inr \<lparr>filesProcessed = 4,
           outputFiles = [''out/a.html'', ''out/b.html'', ''out/d.html'', ''out/e.html'']\<rparr>)
   \<and> [''out/a.html'', ''out/b.html'', ''out/d.html'', ''out/e.html''] =
       concat (map (\<lambda>w. concat (map (job_outputs (demo_host\<lparr>cpus := 3\<rparr>) ''amatl'' demo_options) w))
                   [[''a.md'', ''b.md''], [''d.md'', ''e.md'']])
   \<and> processMarkdownFiles (demo_host\<lparr>cpus := 3, completion := (\<lambda>w. [1, 0])\<rparr>)
         ''amatl'' five_files demo_options =
     ([MkdirP ''out'', Start ''a.md'', Start ''b.md'', Wait [''a.md'', ''b.md''],
       Start ''d.md'', Start ''e.md'', Wait [''d.md'', ''e.md'']],
      Inr \<lparr>filesProcessed = 4,
           outputFiles = [''out/a.html'', ''out/b.html'', ''out/d.html'', ''out/e.html'']\<rparr>)"
  using merged_outputs_in_window_order [OF demo_three_cpus, of "\<lambda>w. [1, 0]"] demo_three_cpus
  by simp

text \<open>
  Claim C1 says that with batch size \<open>K\<close> every one of \<open>N\<close> files has its job
  started, that there are \<open>\<lceil>N/K\<rceil>\<close> joint waits and that \<open>filesProcessed\<close> is \<open>N\<close>.
  The \<open>else\<close> branch of the loop awaits and empties the batch but does not start
  the job of the file at hand. On a host with two processors (batch size 1) and the
  files \<open>a.md\<close>, \<open>b.md\<close>, whose jobs both succeed, the job of \<open>b.md\<close> is never
  started: there is one joint wait, and \<open>filesProcessed\<close> is 1.
\<close>

theorem dispatcher_drops_file:
  "batchSize demo_host = 1
   \<and> snd (processMarkdownFile demo_host ''amatl'' ''a.md'' demo_options)
       = Inr \<lparr>filesProcessed = 1, outputFiles = [''out/a.html'']\<rparr>
   \<and> snd (processMarkdownFile demo_host ''amatl'' ''b.md'' demo_options)
       = Inr \<lparr>filesProcessed = 1, outputFiles = [''out/b.html'']\<rparr>
   \<and> processMarkdownFiles demo_host ''amatl'' [''a.md'', ''b.md''] demo_options =
       ([MkdirP ''out'', Start ''a.md'', Wait [''a.md'']],
        Inr \<lparr>filesProcessed = 1, outputFiles = [''out/a.html'']\<rparr>)"
  by code_simp

subsection \<open>Paths\<close>

lemma split_on_nonempty: "split_on c s \<noteq> []"
  by (induction s) (auto split: list.splits)

lemma split_on_no_sep: "c \<notin> set t \<Longrightarrow> split_on c t = [t]"
  by (induction t) auto

lemma split_on_append_sep: "split_on c (a @ c # b) = split_on c a @ split_on c b"
proof (induction a)
  case Nil
  show ?case by simp
next
  case (Cons x a)
  show ?case
  proof (cases "x = c")
    case True
    with Cons show ?thesis by simp
  next
    case False
    obtain w ws where s: "split_on c a = w # ws"
      using split_on_nonempty [of c a] by (cases "split_on c a") auto
    with False Cons show ?thesis by simp
  qed
qed

lemma split_on_append_last:
  "c \<notin> set t \<Longrightarrow> split_on c (s @ t) = butlast (split_on c s) @ [last (split_on c s) @ t]"
proof (induction s)
  case Nil
  then show ?case by (simp add: split_on_no_sep)
next
  case (Cons x s)
  obtain w ws where s: "split_on c s = w # ws"
    using split_on_nonempty [of c s] by (cases "split_on c s") auto
  obtain v vs where st: "split_on c (s @ t) = v # vs"
    using split_on_nonempty [of c "s @ t"] by (cases "split_on c (s @ t)") auto
  from Cons s st show ?case
    by (cases "x = c") (auto split: if_splits)
qed

lemma split_on_segments: "s \<in> set (split_on c p) \<Longrightarrow> c \<notin> set s"
proof (induction p arbitrary: s)
  case Nil
  then show ?case by simp
next
  case (Cons x p)
  obtain w ws where sp: "split_on c p = w # ws"
    using split_on_nonempty [of c p] by (cases "split_on c p") auto
  from Cons sp show ?case
    by (cases "x = c") auto
qed

lemma join_segs_snoc:
  "join_segs (S @ [L]) = (if S = [] then L else join_segs S @ ''/'' @ L)"
  by (induction S rule: join_segs.induct) simp_all

lemma norm_step_plain:
  "seg \<noteq> [] \<Longrightarrow> seg \<noteq> ''.'' \<Longrightarrow> seg \<noteq> ''..'' \<Longrightarrow> norm_step b st seg = st @ [seg]"
  by (simp add: norm_step_def)

lemma path_normalize_keeps_extension:
  assumes e: "e \<noteq> []" "CHR ''/'' \<notin> set e" "e \<noteq> ''.''"
  shows "suffix (''.'' @ e) (path_normalize (x @ ''.'' @ e))"
proof -
  let ?p = "x @ ''.'' @ e"
  let ?L = "last (split_on CHR ''/'' x) @ ''.'' @ e"
  have ne: "?p \<noteq> []" by simp
  have lastp: "last ?p = last e" using e(1) by simp
  have "last e \<in> set e" using e(1) by simp
  with e(2) have notr: "last ?p \<noteq> CHR ''/''" using lastp by metis
  have sp: "split_on CHR ''/'' ?p = butlast (split_on CHR ''/'' x) @ [?L]"
    using split_on_append_last [of "CHR ''/''" "''.'' @ e" x] e(2) by simp
  have L: "?L \<noteq> []" "?L \<noteq> ''.''" "?L \<noteq> ''..''"
    using e(1,3) by (auto simp: append_eq_Cons_conv Cons_eq_append_conv)
  have segs: "path_segments ?p =
                normalize_segs (\<not> is_absolute ?p) (butlast (split_on CHR ''/'' x)) @ [?L]"
    unfolding path_segments_def normalize_segs_def sp
    using norm_step_plain [OF L] by simp
  have "suffix ?L (join_segs (path_segments ?p))"
    unfolding segs join_segs_snoc by (simp add: suffix_def)
  moreover have "join_segs (path_segments ?p) \<noteq> []"
    unfolding segs join_segs_snoc using L(1) by simp
  ultimately have "suffix ?L (path_normalize ?p)"
    using ne notr by (auto simp: path_normalize_def Let_def suffix_def)
  moreover have "suffix (''.'' @ e) ?L" by (simp add: suffix_def)
  ultimately show ?thesis using suffix_order.trans by blast
qed

lemma path_join_keeps_extension:
  assumes e: "e \<noteq> []" "CHR ''/'' \<notin> set e" "e \<noteq> ''.''"
  shows "suffix (''.'' @ e) (path_join [dir, base @ ''.'' @ e])"
proof (cases "dir = []")
  case True
  then show ?thesis
    using path_normalize_keeps_extension [OF e, of base] by (simp add: path_join_def)
next
  case False
  then show ?thesis
    using path_normalize_keeps_extension [OF e, of "dir @ ''/'' @ base"]
    by (simp add: path_join_def)
qed

lemma norm_fold_no_dotdot:
  "\<forall>s \<in> set segs. s \<noteq> ''..'' \<Longrightarrow>
   foldl (norm_step b) st segs = st @ filter (\<lambda>s. s \<noteq> [] \<and> s \<noteq> ''.'') segs"
  by (induction segs arbitrary: st) (auto simp: norm_step_def)

lemma norm_step_normal:
  assumes n: "normal_segs b st" and seg: "CHR ''/'' \<notin> set seg"
  shows "normal_segs b (norm_step b st seg)"
proof -
  from n obtain k R where st: "st = replicate k ''..'' @ R"
    and R: "\<forall>s \<in> set R. plain_seg s" and k: "0 < k \<longrightarrow> b"
    unfolding normal_segs_def by blast
  consider (skip) "seg = [] \<or> seg = ''.''" | (up) "seg = ''..''"
    | (plain) "seg \<noteq> []" "seg \<noteq> ''.''" "seg \<noteq> ''..''"
    by blast
  then show ?thesis
  proof cases
    case skip
    then show ?thesis using n by (auto simp: norm_step_def)
  next
    case plain
    then have "norm_step b st seg = replicate k ''..'' @ (R @ [seg])"
      using st by (simp add: norm_step_def)
    moreover have "\<forall>s \<in> set (R @ [seg]). plain_seg s"
      using R plain seg by (simp add: plain_seg_def)
    ultimately show ?thesis using k unfolding normal_segs_def by blast
  next
    case up
    show ?thesis
    proof (cases "R = []")
      case False
      then have "last st = last R" using st by simp
      moreover have "last R \<in> set R" using False by simp
      ultimately have "last st \<noteq> ''..''" using R by (auto simp: plain_seg_def)
      moreover have "st \<noteq> []" using st False by simp
      ultimately have "norm_step b st seg = butlast st"
        using up by (simp add: norm_step_def)
      then have "norm_step b st seg = replicate k ''..'' @ butlast R"
        using st False by (simp add: butlast_append)
      moreover have "\<forall>s \<in> set (butlast R). plain_seg s"
        using R by (meson in_set_butlastD)
      ultimately show ?thesis using k unfolding normal_segs_def by blast
    next
      case True
      then have st': "st = replicate k ''..''" using st by simp
      have cond: "\<not> (st \<noteq> [] \<and> last st \<noteq> ''..'')"
        using st' by (cases k) auto
      show ?thesis
      proof (cases b)
        case False
        then have "norm_step b st seg = st" using up cond by (auto simp: norm_step_def)
        then show ?thesis using n by simp
      next
        case True
        then have "norm_step b st seg = st @ [''..'']"
          using up cond by (auto simp: norm_step_def)
        then have "norm_step b st seg = replicate (Suc k) ''..'' @ []"
          using st' by (simp add: replicate_append_same)
        moreover have "\<forall>s \<in> set ([] :: string list). plain_seg s" by simp
        ultimately show ?thesis using True unfolding normal_segs_def by blast
      qed
    qed
  qed
qed

lemma norm_fold_normal:
  "normal_segs b st \<Longrightarrow> \<forall>s \<in> set segs. CHR ''/'' \<notin> set s \<Longrightarrow>
   normal_segs b (foldl (norm_step b) st segs)"
  by (induction segs arbitrary: st) (simp_all add: norm_step_normal)

lemma normal_segs_Nil: "normal_segs b []"
  unfolding normal_segs_def by (rule exI [of _ 0]) simp

lemma path_segments_normal: "normal_segs (\<not> is_absolute p) (path_segments p)"
  unfolding path_segments_def normalize_segs_def
  by (rule norm_fold_normal [OF normal_segs_Nil]) (simp add: split_on_segments)

lemma norm_fold_dotdots:
  "b \<Longrightarrow> foldl (norm_step b) (replicate j ''..'') (replicate k ''..'') = replicate (j + k) ''..''"
proof (induction k arbitrary: j)
  case 0
  show ?case by simp
next
  case (Suc k)
  have "norm_step b (replicate j ''..'') ''..'' = replicate (Suc j) ''..''"
    using Suc.prems by (cases j) (simp_all add: norm_step_def replicate_append_same)
  with Suc.IH [OF Suc.prems, of "Suc j"] show ?case by simp
qed

lemma norm_fold_fixed:
  assumes "normal_segs b S"
  shows "foldl (norm_step b) [] S = S"
proof -
  from assms obtain k R where S: "S = replicate k ''..'' @ R"
    and R: "\<forall>s \<in> set R. plain_seg s" and k: "0 < k \<longrightarrow> b"
    unfolding normal_segs_def by blast
  have front: "foldl (norm_step b) [] (replicate k ''..'') = replicate k ''..''"
  proof (cases k)
    case 0
    then show ?thesis by simp
  next
    case (Suc n)
    with k have b by simp
    from norm_fold_dotdots [OF this, of 0 k] show ?thesis by simp
  qed
  have "\<forall>s \<in> set R. s \<noteq> [] \<and> s \<noteq> ''.''"
    using R unfolding plain_seg_def by blast
  then have keep: "filter (\<lambda>s. s \<noteq> [] \<and> s \<noteq> ''.'') R = R"
    by (induction R) simp_all
  have nd: "\<forall>s \<in> set R. s \<noteq> ''..''"
    using R unfolding plain_seg_def by blast
  have "foldl (norm_step b) [] S = foldl (norm_step b) (replicate k ''..'') R"
    unfolding S foldl_append front ..
  also have "\<dots> = replicate k ''..'' @ filter (\<lambda>s. s \<noteq> [] \<and> s \<noteq> ''.'') R"
    by (rule norm_fold_no_dotdot [OF nd])
  also have "\<dots> = S" unfolding keep S ..
  finally show ?thesis .
qed

lemma normal_segs_no_slash:
  assumes "normal_segs b S" and "s \<in> set S"
  shows "s \<noteq> [] \<and> CHR ''/'' \<notin> set s"
proof -
  from assms(1) obtain k R where S: "S = replicate k ''..'' @ R"
    and R: "\<forall>s \<in> set R. plain_seg s"
    unfolding normal_segs_def by blast
  from assms(2) S have "s \<in> set (replicate k ''..'') \<or> s \<in> set R" by simp
  then show ?thesis
  proof
    assume "s \<in> set (replicate k ''..'')"
    then have "s = ''..''" by simp
    then show ?thesis by simp
  next
    assume "s \<in> set R"
    with R have "plain_seg s" by blast
    then show ?thesis unfolding plain_seg_def by blast
  qed
qed

lemma split_join:
  "S \<noteq> [] \<Longrightarrow> \<forall>s \<in> set S. CHR ''/'' \<notin> set s \<Longrightarrow> split_on CHR ''/'' (join_segs S) = S"
proof (induction S rule: join_segs.induct)
  case 1
  then show ?case by simp
next
  case (2 s)
  then show ?case by (simp add: split_on_no_sep)
next
  case (3 s v va)
  have "split_on CHR ''/'' (s @ CHR ''/'' # join_segs (v # va))
          = split_on CHR ''/'' s @ split_on CHR ''/'' (join_segs (v # va))"
    by (rule split_on_append_sep)
  with 3 show ?case by (simp add: split_on_no_sep)
qed

lemma join_segs_head:
  "S \<noteq> [] \<Longrightarrow> \<forall>s \<in> set S. s \<noteq> [] \<and> CHR ''/'' \<notin> set s \<Longrightarrow>
   join_segs S \<noteq> [] \<and> hd (join_segs S) \<noteq> CHR ''/''"
proof (induction S rule: join_segs.induct)
  case 1
  then show ?case by simp
next
  case (2 s)
  then show ?case by (cases s) auto
next
  case (3 s v va)
  then show ?case by (cases s) auto
qed

lemma split_on_leading_sep: "split_on c (c # x) = [] # split_on c x"
  by simp

lemma split_on_trailing_sep: "split_on c (x @ [c]) = split_on c x @ [[]]"
  using split_on_append_sep [of c x "[]"] by simp

lemma norm_fold_skip_empty:
  "foldl (norm_step b) st ([] # S) = foldl (norm_step b) st S"
  "foldl (norm_step b) st (S @ [[]]) = foldl (norm_step b) st S"
  by (simp_all add: norm_step_def)

lemma path_segments_special:
  "path_segments [] = []" "path_segments ''.'' = []" "path_segments ''./'' = []"
  "path_segments ''/'' = []"
  by (simp_all add: path_segments_def normalize_segs_def norm_step_def is_absolute_def)

lemma path_segments_normalize: "path_segments (path_normalize p) = path_segments p"
proof (cases "p = []")
  case True
  then show ?thesis by (simp add: path_normalize_def path_segments_special)
next
  case False
  define S where "S = path_segments p"
  define b where "b = (\<not> is_absolute p)"
  have nS: "normal_segs b S" unfolding S_def b_def by (rule path_segments_normal)
  show ?thesis
  proof (cases "S = []")
    case True
    then have "path_normalize p = ''/'' \<or> path_normalize p = ''./'' \<or> path_normalize p = ''.''"
      using False unfolding S_def by (auto simp: path_normalize_def Let_def)
    then show ?thesis using True path_segments_special unfolding S_def by metis
  next
    case ne: False
    define r where "r = join_segs S"
    have seg: "\<forall>s \<in> set S. s \<noteq> [] \<and> CHR ''/'' \<notin> set s"
      using normal_segs_no_slash [OF nS] by blast
    have r: "r \<noteq> []" "hd r \<noteq> CHR ''/''"
      unfolding r_def using join_segs_head [OF ne seg] by simp_all
    have sj: "split_on CHR ''/'' r = S"
      unfolding r_def using split_join [OF ne] seg by blast
    define pre where "pre = (if is_absolute p then ''/'' else [])"
    define post where "post = (if last p = CHR ''/'' then ''/'' else [])"
    have pn: "path_normalize p = pre @ r @ post"
      using False r(1) unfolding pre_def post_def r_def S_def
      by (simp add: path_normalize_def Let_def)
    have abs: "(\<not> is_absolute (pre @ r @ post)) = b"
      using r unfolding pre_def b_def by (cases r) (auto simp: is_absolute_def)
    have sp1: "split_on CHR ''/'' (r @ post) = S @ (if last p = CHR ''/'' then [[]] else [])"
      using sj split_on_trailing_sep [of "CHR ''/''" r] unfolding post_def by simp
    have sp: "split_on CHR ''/'' (pre @ r @ post) =
                (if is_absolute p then [[]] else []) @ S
                @ (if last p = CHR ''/'' then [[]] else [])"
      using sp1 unfolding pre_def by simp
    have "path_segments (pre @ r @ post) =
            foldl (norm_step b) []
              ((if is_absolute p then [[]] else []) @ S @ (if last p = CHR ''/'' then [[]] else []))"
      unfolding path_segments_def normalize_segs_def abs sp ..
    also have "\<dots> = foldl (norm_step b) [] S"
      by (simp add: norm_fold_skip_empty norm_step_def)
    also have "\<dots> = S" by (rule norm_fold_fixed [OF nS])
    finally show ?thesis using pn unfolding S_def by simp
  qed
qed

lemma path_segments_join:
  assumes q: "\<forall>s \<in> set (split_on CHR ''/'' q). s \<noteq> ''..''"
  shows "path_segments (path_join [a, q]) =
           path_segments a @ filter (\<lambda>s. s \<noteq> [] \<and> s \<noteq> ''.'') (split_on CHR ''/'' q)"
proof (cases "q = []")
  case True
  then show ?thesis
    by (cases "a = []") (simp_all add: path_join_def path_segments_normalize path_segments_special)
next
  case qne: False
  show ?thesis
  proof (cases "a = []")
    case True
    have "path_segments q = filter (\<lambda>s. s \<noteq> [] \<and> s \<noteq> ''.'') (split_on CHR ''/'' q)"
      unfolding path_segments_def normalize_segs_def
      using norm_fold_no_dotdot [OF q, of "\<not> is_absolute q" "[]"] by simp
    with True qne show ?thesis
      by (simp add: path_join_def path_segments_normalize path_segments_special)
  next
    case False
    have abs: "is_absolute (a @ ''/'' @ q) = is_absolute a"
      using False by (cases a) (simp_all add: is_absolute_def)
    have sp: "split_on CHR ''/'' (a @ ''/'' @ q) = split_on CHR ''/'' a @ split_on CHR ''/'' q"
      using split_on_append_sep [of "CHR ''/''" a q] by simp
    have "path_segments (a @ ''/'' @ q) =
            foldl (norm_step (\<not> is_absolute a)) (path_segments a) (split_on CHR ''/'' q)"
      by (simp only: path_segments_def normalize_segs_def abs sp foldl_append)
    also have "\<dots> = path_segments a @ filter (\<lambda>s. s \<noteq> [] \<and> s \<noteq> ''.'') (split_on CHR ''/'' q)"
      by (rule norm_fold_no_dotdot [OF q])
    finally show ?thesis
      using False qne by (simp add: path_join_def path_segments_normalize)
  qed
qed

lemma last_component_no_slash: "CHR ''/'' \<notin> set (last_component p)"
proof -
  have "\<forall>c \<in> set (takeWhile (\<lambda>c. c \<noteq> CHR ''/'') xs). c \<noteq> CHR ''/''" for xs
    by (metis set_takeWhileD)
  then show ?thesis unfolding last_component_def by auto
qed

lemma path_basename_no_slash: "CHR ''/'' \<notin> set (path_basename p s)"
proof -
  have "CHR ''/'' \<notin> set (take n (last_component p))" for n
    using last_component_no_slash [of p] by (meson in_set_takeD)
  then show ?thesis
    using last_component_no_slash [of p] by (simp add: path_basename_def Let_def)
qed

lemma format_loop_outputs:
  "format_loop h ap f opts fmts acc = (evs, Inr res) \<Longrightarrow>
   res = acc @ map (outputFile_of h f opts) fmts"
proof (induction fmts arbitrary: acc evs)
  case Nil
  then show ?case by simp
next
  case (Cons fmt fmts)
  from Cons.prems obtain evs' where
    "format_loop h ap f opts fmts (acc @ [outputFile_of h f opts fmt]) = (evs', Inr res)"
    by (auto simp: Let_def split: option.splits prod.splits)
  from Cons.IH [OF this] show ?case by simp
qed

lemma processMarkdownFile_outputs:
  assumes "processMarkdownFile h ap f opts = (evs, Inr r)"
  shows "outputFiles r = map (outputFile_of h f opts) (formats_of opts)"
proof -
  from assms obtain evs' res where
    fl: "format_loop h ap f opts (formats_of opts) [] = (evs', Inr res)"
    and r: "r = \<lparr>filesProcessed = 1, outputFiles = res\<rparr>"
    by (auto simp: processMarkdownFile_def Let_def split: option.splits prod.splits sum.splits)
  from format_loop_outputs [OF fl] r show ?thesis by simp
qed

lemma supported_extension:
  assumes "fmt \<in> {''html'', ''pdf'', ''markdown''}"
  shows "extension_of fmt \<noteq> []" "CHR ''/'' \<notin> set (extension_of fmt)"
    "extension_of fmt \<noteq> ''.''"
  using assms by (auto simp: extension_of_def)

subsection \<open>One job\<close>

text \<open>
  Claim C3, as the code has it. For every input file and every requested format among
  \<open>html\<close>, \<open>pdf\<close> and \<open>markdown\<close>, the output path of \<open>processMarkdownFile\<close> ends
  with \<open>.md\<close> for \<open>markdown\<close> and with a dot and the format name otherwise, and a
  returning job lists it in its result. The path is
  \<open>join(join(outputDir, dirname(relative(cwd, file))), base + '.' + ext)\<close>: whenever
  the mirrored relative subdirectory has no \<open>..\<close> segment, its segments are those of
  the output directory, then those of the subdirectory, then the file name.
\<close>

theorem output_path_extension:
  assumes req: "fmt \<in> set (formats_of opts)"
    and sup: "fmt \<in> {''html'', ''pdf'', ''markdown''}"
  shows "suffix (''.'' @ (if fmt = ''markdown'' then ''md'' else fmt))
           (outputFile_of h file opts fmt)
       \<and> (processMarkdownFile h amatlPath file opts = (evs, Inr r) \<longrightarrow>
            outputFile_of h file opts fmt \<in> set (outputFiles r))
       \<and> (''..'' \<notin> set (split_on CHR ''/'' (path_dirname (path_relative (cwd h) (cwd h) file))) \<longrightarrow>
            path_segments (outputFile_of h file opts fmt) =
              path_segments (outputDir opts)
              @ filter (\<lambda>s. s \<noteq> [] \<and> s \<noteq> ''.'')
                  (split_on CHR ''/'' (path_dirname (path_relative (cwd h) (cwd h) file)))
              @ [path_basename file (path_extname file) @ ''.''
                 @ (if fmt = ''markdown'' then ''md'' else fmt)])"
proof -
  let ?e = "extension_of fmt"
  let ?d = "path_dirname (path_relative (cwd h) (cwd h) file)"
  let ?name = "path_basename file (path_extname file) @ ''.'' @ ?e"
  have e: "?e = (if fmt = ''markdown'' then ''md'' else fmt)" by (simp add: extension_of_def)
  note se = supported_extension [OF sup]
  have c1: "suffix (''.'' @ ?e) (outputFile_of h file opts fmt)"
    unfolding outputFile_of_def by (rule path_join_keeps_extension [OF se])
  have c2: "outputFile_of h file opts fmt \<in> set (outputFiles r)"
    if "processMarkdownFile h amatlPath file opts = (evs, Inr r)"
    using processMarkdownFile_outputs [OF that] req by simp
  have c3: "path_segments (outputFile_of h file opts fmt) =
              path_segments (outputDir opts)
              @ filter (\<lambda>s. s \<noteq> [] \<and> s \<noteq> ''.'') (split_on CHR ''/'' ?d) @ [?name]"
    if nd: "''..'' \<notin> set (split_on CHR ''/'' ?d)"
  proof -
    have ns: "CHR ''/'' \<notin> set ?name"
      using path_basename_no_slash [of "file" "path_extname file"] se(2) by simp
    have sp: "split_on CHR ''/'' ?name = [?name]" by (rule split_on_no_sep [OF ns])
    have nm: "?name \<noteq> []" "?name \<noteq> ''.''" "?name \<noteq> ''..''"
      using se(1,3) by (auto simp: append_eq_Cons_conv Cons_eq_append_conv)
    have q1: "\<forall>s \<in> set (split_on CHR ''/'' ?name). s \<noteq> ''..''"
      unfolding sp using nm(3) by simp
    have q2: "\<forall>s \<in> set (split_on CHR ''/'' ?d). s \<noteq> ''..''"
      using nd by blast
    have "path_segments (outputFile_of h file opts fmt) =
            path_segments (outputSubDir_of h file opts) @ [?name]"
      unfolding outputFile_of_def path_segments_join [OF q1] sp using nm(1,2) by simp
    also have "path_segments (outputSubDir_of h file opts) =
            path_segments (outputDir opts)
            @ filter (\<lambda>s. s \<noteq> [] \<and> s \<noteq> ''.'') (split_on CHR ''/'' ?d)"
      unfolding outputSubDir_of_def by (rule path_segments_join [OF q2])
    finally show ?thesis by simp
  qed
  from c1 c2 c3 show ?thesis unfolding e by blast
qed

text \<open>The witness: \<open>docs/a.md\<close> rendered to \<open>markdown\<close>.\<close>

theorem output_path_extension_witness:
  "''markdown'' \<in> set (formats_of three_formats)
   \<and> ''..'' \<notin> set (split_on CHR ''/'' (path_dirname (path_relative (cwd demo_host) (cwd demo_host) ''docs/a.md'')))
   \<and> outputFile_of demo_host ''docs/a.md'' three_formats ''markdown'' = ''out/docs/a.md''
   \<and> suffix ''.md'' ''out/docs/a.md''
   \<and> path_segments ''out/docs/a.md'' = [''out'', ''docs'', ''a.md'']"
proof -
  have req: "''markdown'' \<in> set (formats_of three_formats)" by code_simp
  have sup: "''markdown'' \<in> {''html'', ''pdf'', ''markdown''}" by simp
  have nd: "''..'' \<notin> set (split_on CHR ''/''
              (path_dirname (path_relative (cwd demo_host) (cwd demo_host) ''docs/a.md'')))"
    by code_simp
  have out: "outputFile_of demo_host ''docs/a.md'' three_formats ''markdown'' = ''out/docs/a.md''"
    by code_simp
  have rhs: "path_segments (outputDir three_formats)
              @ filter (\<lambda>s. s \<noteq> [] \<and> s \<noteq> ''.'')
                  (split_on CHR ''/'' (path_dirname (path_relative (cwd demo_host) (cwd demo_host) ''docs/a.md'')))
              @ [path_basename ''docs/a.md'' (path_extname ''docs/a.md'') @ ''.'' @ ''md'']
             = [''out'', ''docs'', ''a.md'']"
    by code_simp
  from output_path_extension [OF req sup, of demo_host "''docs/a.md''"] nd
  have "suffix ''.md'' (outputFile_of demo_host ''docs/a.md'' three_formats ''markdown'')"
    and "path_segments (outputFile_of demo_host ''docs/a.md'' three_formats ''markdown'') =
           path_segments (outputDir three_formats)
              @ filter (\<lambda>s. s \<noteq> [] \<and> s \<noteq> ''.'')
                  (split_on CHR ''/'' (path_dirname (path_relative (cwd demo_host) (cwd demo_host) ''docs/a.md'')))
              @ [path_basename ''docs/a.md'' (path_extname ''docs/a.md'') @ ''.'' @ ''md'']"
    by simp_all
  with req nd out rhs show ?thesis by simp
qed

text \<open>
  Claim C3 as stated places every output path under the output directory. A file
  outside the working directory (matched by a pattern such as \<open>../docs/*.md\<close>) has a
  relative path that starts with \<open>..\<close>, and \<open>path.join\<close> resolves it against the
  output directory: with the output directory \<open>out\<close>, \<open>../docs/x.md\<close> is rendered to
  \<open>docs/x.html\<close>, beside \<open>out\<close> and not under it.
\<close>

theorem output_path_outside_counterexample:
  "processMarkdownFile demo_host ''amatl'' ''../docs/x.md'' demo_options =
     ([MkdirP ''docs'',
       Exec ''amatl'' [''render'', ''html'', ''-o'', ''docs/x.html'', ''../docs/x.md'']],
      Inr \<lparr>filesProcessed = 1, outputFiles = [''docs/x.html'']\<rparr>)
   \<and> outputDir demo_options = ''out''
   \<and> \<not> prefix ''out'' (outputFile_of demo_host ''../docs/x.md'' demo_options ''html'')
   \<and> \<not> prefix (path_segments (outputDir demo_options))
               (path_segments (outputFile_of demo_host ''../docs/x.md'' demo_options ''html''))"
  by code_simp

text \<open>
  Claim C2 says that when the invocation for the second of three formats fails, the
  job's result holds exactly the first format's output path. The job has no result
  then: the \<open>catch\<close> block rethrows, and the path already pushed is dropped.
\<close>

theorem job_result_counterexample:
  "formats_of three_formats = [''html'', ''pdf'', ''markdown'']
   \<and> processMarkdownFile (demo_host\<lparr>exec := pdf_fails\<rparr>) ''amatl'' ''a.md'' three_formats =
     ([MkdirP ''out'',
       Exec ''amatl'' [''render'', ''html'', ''-o'', ''out/a.html'', ''a.md''],
       Exec ''amatl'' [''render'', ''pdf'', ''-o'', ''out/a.pdf'', ''a.md'']],
      Inl (Error ''The process failed with exit code 1''))
   \<and> snd (processMarkdownFile (demo_host\<lparr>exec := pdf_fails\<rparr>) ''amatl'' ''a.md'' three_formats)
       \<noteq> Inr \<lparr>filesProcessed = 1, outputFiles = [''out/a.html'']\<rparr>"
  by code_simp

text \<open>
  Claim C2, as the code has it. For a job over the formats \<open>[f1, f2, f3]\<close> in which
  the invocation for \<open>f1\<close> succeeds and the one for \<open>f2\<close> fails, the invocations
  made are exactly those for \<open>f1\<close> and \<open>f2\<close>, in this order (none for \<open>f3\<close>), and
  the job throws the error of \<open>f2\<close>'s invocation instead of returning a result.
\<close>

theorem job_stops_at_failed_format:
  assumes fmts: "formats_of opts = [f1, f2, f3]"
    and dir: "mkdirP h (outputSubDir_of h file opts) = None"
    and ok1: "exec h amatlPath (render_args h file opts f1) = None"
    and bad2: "exec h amatlPath (render_args h file opts f2) = Some e"
  shows "processMarkdownFile h amatlPath file opts =
           ([MkdirP (outputSubDir_of h file opts),
             Exec amatlPath (render_args h file opts f1),
             Exec amatlPath (render_args h file opts f2)],
            Inl e)"
  using assms by (simp add: processMarkdownFile_def Let_def)

text \<open>The witness: \<open>html,pdf,markdown\<close> with a failing \<open>pdf\<close> invocation.\<close>

theorem job_stops_at_failed_format_witness:
  "formats_of three_formats = [''html'', ''pdf'', ''markdown'']
   \<and> exec (demo_host\<lparr>exec := pdf_fails\<rparr>) ''amatl''
        [''render'', ''html'', ''-o'', ''out/a.html'', ''a.md''] = None
   \<and> exec (demo_host\<lparr>exec := pdf_fails\<rparr>) ''amatl''
        [''render'', ''pdf'', ''-o'', ''out/a.pdf'', ''a.md'']
        = Some (Error ''The process failed with exit code 1'')
   \<and> processMarkdownFile (demo_host\<lparr>exec := pdf_fails\<rparr>) ''amatl'' ''a.md'' three_formats =
     ([MkdirP ''out'',
       Exec ''amatl'' [''render'', ''html'', ''-o'', ''out/a.html'', ''a.md''],
       Exec ''amatl'' [''render'', ''pdf'', ''-o'', ''out/a.pdf'', ''a.md'']],
      Inl (Error ''The process failed with exit code 1''))"
proof -
  let ?h = "demo_host\<lparr>exec := pdf_fails\<rparr>"
  have fmts: "formats_of three_formats = [''html'', ''pdf'', ''markdown'']" by code_simp
  have sub: "outputSubDir_of ?h ''a.md'' three_formats = ''out''" by code_simp
  have a1: "render_args ?h ''a.md'' three_formats ''html''
              = [''render'', ''html'', ''-o'', ''out/a.html'', ''a.md'']" by code_simp
  have a2: "render_args ?h ''a.md'' three_formats ''pdf''
              = [''render'', ''pdf'', ''-o'', ''out/a.pdf'', ''a.md'']" by code_simp
  have dir: "mkdirP ?h (outputSubDir_of ?h ''a.md'' three_formats) = None"
    by (simp add: demo_host_def)
  have ok1: "exec ?h ''amatl'' (render_args ?h ''a.md'' three_formats ''html'') = None"
    unfolding a1 by (simp add: pdf_fails_def)
  have bad2: "exec ?h ''amatl'' (render_args ?h ''a.md'' three_formats ''pdf'')
                = Some (Error ''The process failed with exit code 1'')"
    unfolding a2 by (simp add: pdf_fails_def)
  from job_stops_at_failed_format [OF fmts dir ok1 bad2] fmts ok1 bad2
  show ?thesis unfolding a1 a2 sub by simp
qed

text \<open>
  Claim C4 says that \<open>--html-layout\<close> is absent from the invocation for \<open>markdown\<close>.
  The additional arguments are passed through as they are, so a flag written there
  is present for every format.
\<close>

theorem layout_flag_counterexample:
  "truthy (layout with_extra_layout)
   \<and> render_args demo_host ''a.md'' with_extra_layout ''markdown'' =
       [''render'', ''markdown'', ''-o'', ''out/a.md'', ''--html-layout'', ''x'', ''a.md'']
   \<and> ''--html-layout'' \<in> set (render_args demo_host ''a.md'' with_extra_layout ''markdown'')"
  by code_simp

lemma flag_args_set:
  "v \<noteq> Some x \<Longrightarrow> flag \<noteq> x \<Longrightarrow> x \<notin> set (flag_args flag v)"
  by (cases v) auto

text \<open>
  Claim C4, as the code has it. For a format among \<open>html\<close>, \<open>pdf\<close> and \<open>markdown\<close>,
  and provided none of the file name, the config value, the vars value and the
  parsed additional arguments is itself \<open>--html-layout\<close>, the flag is in the argument
  list if and only if the format is \<open>html\<close> or \<open>pdf\<close> and a layout was supplied; it
  is then followed by the layout value, right after the output path.
\<close>

theorem layout_flag_iff:
  assumes sup: "fmt \<in> {''html'', ''pdf'', ''markdown''}"
    and cfg: "config opts \<noteq> Some ''--html-layout''"
    and vrs: "vars opts \<noteq> Some ''--html-layout''"
    and extra: "''--html-layout'' \<notin> set (extra_args h (additionalArgs opts))"
    and fil: "file \<noteq> ''--html-layout''"
  shows "(''--html-layout'' \<in> set (render_args h file opts fmt))
           = ((fmt = ''html'' \<or> fmt = ''pdf'') \<and> truthy (layout opts))
       \<and> ((fmt = ''html'' \<or> fmt = ''pdf'') \<longrightarrow> layout opts = Some l \<longrightarrow> l \<noteq> [] \<longrightarrow>
            render_args h file opts fmt =
              [''render''] @ flag_args ''-c'' (config opts)
              @ [fmt, ''-o'', outputFile_of h file opts fmt, ''--html-layout'', l]
              @ flag_args ''--vars'' (vars opts) @ extra_args h (additionalArgs opts) @ [file])"
proof -
  let ?flag = "''--html-layout''"
  have "suffix (''.'' @ extension_of fmt) (outputFile_of h file opts fmt)"
    unfolding outputFile_of_def
    by (rule path_join_keeps_extension [OF supported_extension [OF sup]])
  then have "CHR ''.'' \<in> set (outputFile_of h file opts fmt)"
    by (auto simp: suffix_def)
  then have out: "outputFile_of h file opts fmt \<noteq> ?flag" by auto
  have f: "fmt \<noteq> ?flag" using sup by auto
  have c: "?flag \<notin> set (flag_args ''-c'' (config opts))"
    by (rule flag_args_set [OF cfg]) simp
  have v: "?flag \<notin> set (flag_args ''--vars'' (vars opts))"
    by (rule flag_args_set [OF vrs]) simp
  have lay: "(?flag \<in> set (flag_args ?flag (layout opts))) = truthy (layout opts)"
    by (cases "layout opts") simp_all
  have c1: "(?flag \<in> set (render_args h file opts fmt))
           = ((fmt = ''html'' \<or> fmt = ''pdf'') \<and> truthy (layout opts))"
    using out f c v lay extra fil by (simp add: render_args_def)
  have c2: "render_args h file opts fmt =
              [''render''] @ flag_args ''-c'' (config opts)
              @ [fmt, ''-o'', outputFile_of h file opts fmt, ''--html-layout'', l]
              @ flag_args ''--vars'' (vars opts) @ extra_args h (additionalArgs opts) @ [file]"
    if "fmt = ''html'' \<or> fmt = ''pdf''" "layout opts = Some l" "l \<noteq> []"
    using that by (simp add: render_args_def)
  from c1 c2 show ?thesis by blast
qed

text \<open>The witness: a configured layout, for \<open>html\<close> and for \<open>markdown\<close>.\<close>

theorem layout_flag_iff_witness:
  "render_args demo_host ''a.md''
       (demo_options\<lparr>layout := Some ''amatl://document.html''\<rparr>) ''html'' =
     [''render'', ''html'', ''-o'', ''out/a.html'', ''--html-layout'', ''amatl://document.html'',
      ''a.md'']
   \<and> ''--html-layout'' \<in> set (render_args demo_host ''a.md''
         (demo_options\<lparr>layout := Some ''amatl://document.html''\<rparr>) ''html'')
   \<and> ''--html-layout'' \<notin> set (render_args demo_host ''a.md''
         (demo_options\<lparr>layout := Some ''amatl://document.html''\<rparr>) ''markdown'')"
proof -
  let ?o = "demo_options\<lparr>layout := Some ''amatl://document.html''\<rparr>"
  have cfg: "config ?o \<noteq> Some ''--html-layout''" by (simp add: demo_options_def)
  have vrs: "vars ?o \<noteq> Some ''--html-layout''" by (simp add: demo_options_def)
  have extra: "''--html-layout'' \<notin> set (extra_args demo_host (additionalArgs ?o))"
    by (simp add: demo_options_def)
  have fil: "''a.md'' \<noteq> ''--html-layout''" by simp
  have lay: "layout ?o = Some ''amatl://document.html''" "truthy (layout ?o)" by simp_all
  have out: "outputFile_of demo_host ''a.md'' ?o ''html'' = ''out/a.html''" by code_simp
  have o2: "config ?o = None" "vars ?o = None" "additionalArgs ?o = None"
    by (simp_all add: demo_options_def)
  have h: "''html'' \<in> {''html'', ''pdf'', ''markdown''}" by simp
  have m: "''markdown'' \<in> {''html'', ''pdf'', ''markdown''}" by simp
  from layout_flag_iff [OF h cfg vrs extra fil, of "''amatl://document.html''"] lay
  have a: "''--html-layout'' \<in> set (render_args demo_host ''a.md'' ?o ''html'')"
    and b: "render_args demo_host ''a.md'' ?o ''html'' =
              [''render''] @ flag_args ''-c'' (config ?o)
              @ [''html'', ''-o'', outputFile_of demo_host ''a.md'' ?o ''html'',
                 ''--html-layout'', ''amatl://document.html'']
              @ flag_args ''--vars'' (vars ?o) @ extra_args demo_host (additionalArgs ?o)
              @ [''a.md'']"
    by simp_all
  from layout_flag_iff [OF m cfg vrs extra fil, of "''amatl://document.html''"]
  have c: "''--html-layout'' \<notin> set (render_args demo_host ''a.md'' ?o ''markdown'')"
    by simp
  from a b c show ?thesis unfolding out o2 by simp
qed

subsection \<open>How many files the dispatcher processes\<close>

text \<open>
  With batch size \<open>K\<close> and \<open>N\<close> files whose jobs all succeed, the loop starts a job
  for \<open>K\<close> files, then spends the next file on the joint wait, and so on: of every
  \<open>K + 1\<close> files one is skipped. The run returns with
  \<open>filesProcessed = N - N div (K + 1)\<close>, after one joint wait per full group of
  \<open>K + 1\<close> files and one more for what is left in the batch.
\<close>

lemma job_counts_one:
  "snd (processMarkdownFile h ap f opts) = Inr r \<Longrightarrow> filesProcessed r = 1"
  by (auto simp: processMarkdownFile_def Let_def split: option.splits prod.splits sum.splits)

lemma own_jobs_processed:
  assumes own: "own_jobs h ap opts b" and all: "promise_all proposal b = Inr rs"
  shows "sum_list (map filesProcessed rs) = length b"
proof -
  have m: "map snd b = map Inr rs" by (rule promise_all_Inr [OF all])
  have len: "length rs = length b" using m by (metis length_map)
  have one: "filesProcessed r = 1" if "r \<in> set rs" for r
  proof -
    from that obtain i where i: "i < length rs" and r: "rs ! i = r"
      by (auto simp: in_set_conv_nth)
    have "b ! i = (fst (b ! i), snd (processMarkdownFile h ap (fst (b ! i)) opts))"
      using own i len unfolding own_jobs_def by (metis (no_types, lifting) length_map nth_map)
    then have "snd (b ! i) = snd (processMarkdownFile h ap (fst (b ! i)) opts)"
      by (metis snd_conv)
    moreover have "snd (b ! i) = Inr (rs ! i)"
      using m i len by (metis nth_map)
    ultimately have "snd (processMarkdownFile h ap (fst (b ! i)) opts) = Inr r"
      using r by simp
    then show ?thesis by (rule job_counts_one)
  qed
  have "sum_list (map filesProcessed rs) = length rs"
    using one by (induction rs) simp_all
  with len show ?thesis by simp
qed

lemma jobs_succeed_all:
  assumes own: "own_jobs h ap opts b" and ok: "jobs_succeed h ap opts (map fst b)"
  shows "\<exists>rs. promise_all proposal b = Inr rs"
proof -
  have "\<exists>rs. map snd b = map Inr rs"
    using own ok unfolding own_jobs_def jobs_succeed_def
  proof (induction b)
    case Nil
    then show ?case by simp
  next
    case (Cons p b)
    from Cons.prems have p: "snd p = snd (processMarkdownFile h ap (fst p) opts)"
      and own': "b = map (\<lambda>f. (f, snd (processMarkdownFile h ap f opts))) (map fst b)"
      by (simp_all add: prod_eq_iff)
    from Cons.prems(2) obtain r where r: "snd (processMarkdownFile h ap (fst p) opts) = Inr r"
      and ok': "list_all (\<lambda>f. case snd (processMarkdownFile h ap f opts) of
                      Inl e \<Rightarrow> False | Inr r \<Rightarrow> True) (map fst b)"
      by (auto split: sum.splits)
    from Cons.IH [OF own' ok'] obtain rs where "map snd b = map Inr rs" by blast
    with p r have "map snd (p # b) = map Inr (r # rs)" by simp
    then show ?case by blast
  qed
  then obtain rs where "map snd b = map Inr rs" by blast
  from promise_all_complete [OF this] show ?thesis by blast
qed

lemma dispatch_loop_counts:
  assumes k: "k = int kn" "1 \<le> kn"
  shows "jobs_succeed h ap opts files \<Longrightarrow> own_jobs h ap opts (batch d) \<Longrightarrow>
     jobs_succeed h ap opts (map fst (batch d)) \<Longrightarrow> length (batch d) \<le> kn \<Longrightarrow>
     \<exists>evs d'. dispatch_loop h ap opts k files d = (evs, Inr d')
       \<and> own_jobs h ap opts (batch d')
       \<and> jobs_succeed h ap opts (map fst (batch d'))
       \<and> length (batch d') = (length (batch d) + length files) mod (kn + 1)
       \<and> length (windows evs) = (length (batch d) + length files) div (kn + 1)
       \<and> length (started evs) + length (windows evs) = length files
       \<and> processed d' + length (batch d') = processed d + length (batch d) + length (started evs)"
proof (induction files arbitrary: d)
  case Nil
  then show ?case by simp
next
  case (Cons f rest)
  from Cons.prems(1) have okf: "jobs_succeed h ap opts [f]" and okr: "jobs_succeed h ap opts rest"
    by (simp_all add: jobs_succeed_def)
  show ?case
  proof (cases "length (batch d) < kn")
    case True
    let ?p = "(f, snd (processMarkdownFile h ap f opts))"
    let ?d = "d\<lparr>batch := batch d @ [?p]\<rparr>"
    have own: "own_jobs h ap opts (batch ?d)"
      using own_jobs_append [OF Cons.prems(2)] by simp
    have ok: "jobs_succeed h ap opts (map fst (batch ?d))"
      using Cons.prems(3) okf by (simp add: jobs_succeed_def)
    have len: "length (batch ?d) \<le> kn" using True by simp
    from Cons.IH [OF okr own ok len] obtain evs d' where
      rec: "dispatch_loop h ap opts k rest ?d = (evs, Inr d')"
      and r1: "own_jobs h ap opts (batch d')"
      and r2: "jobs_succeed h ap opts (map fst (batch d'))"
      and r3: "length (batch d') = (length (batch ?d) + length rest) mod (kn + 1)"
      and r4: "length (windows evs) = (length (batch ?d) + length rest) div (kn + 1)"
      and r5: "length (started evs) + length (windows evs) = length rest"
      and r6: "processed d' + length (batch d') = processed ?d + length (batch ?d) + length (started evs)"
      by blast
    have step: "dispatch_loop h ap opts k (f # rest) d = (Start f # evs, Inr d')"
      using True rec k by simp
    have "length (batch ?d) + length rest = length (batch d) + length (f # rest)" by simp
    with r3 r4 have c3: "length (batch d') = (length (batch d) + length (f # rest)) mod (kn + 1)"
      and c4: "length (windows (Start f # evs)) = (length (batch d) + length (f # rest)) div (kn + 1)"
      by simp_all
    have c5: "length (started (Start f # evs)) + length (windows (Start f # evs)) = length (f # rest)"
      using r5 by simp
    have c6: "processed d' + length (batch d')
                = processed d + length (batch d) + length (started (Start f # evs))"
      using r6 by simp
    from step r1 r2 c3 c4 c5 c6 show ?thesis by blast
  next
    case False
    with Cons.prems(4) have full: "length (batch d) = kn" by simp
    from jobs_succeed_all [OF Cons.prems(2,3)] obtain results where
      all: "promise_all (completion h (waits d)) (batch d) = Inr results" by blast
    let ?d = "(merge_results results d)\<lparr>batch := [], waits := Suc (waits d)\<rparr>"
    have own: "own_jobs h ap opts (batch ?d)" by (simp add: own_jobs_def)
    have ok: "jobs_succeed h ap opts (map fst (batch ?d))" by (simp add: jobs_succeed_def)
    have len: "length (batch ?d) \<le> kn" by simp
    have pr: "processed ?d = processed d + length (batch d)"
      using own_jobs_processed [OF Cons.prems(2) all] by (simp add: merge_results_fields)
    from Cons.IH [OF okr own ok len] obtain evs d' where
      rec: "dispatch_loop h ap opts k rest ?d = (evs, Inr d')"
      and r1: "own_jobs h ap opts (batch d')"
      and r2: "jobs_succeed h ap opts (map fst (batch d'))"
      and r3: "length (batch d') = (length (batch ?d) + length rest) mod (kn + 1)"
      and r4: "length (windows evs) = (length (batch ?d) + length rest) div (kn + 1)"
      and r5: "length (started evs) + length (windows evs) = length rest"
      and r6: "processed d' + length (batch d') = processed ?d + length (batch ?d) + length (started evs)"
      by blast
    have step: "dispatch_loop h ap opts k (f # rest) d = (Wait (map fst (batch d)) # evs, Inr d')"
      using False full rec all k by simp
    have ar: "length (batch d) + length (f # rest) = length rest + (kn + 1)"
      using full by simp
    have m1: "(length rest + (kn + 1)) mod (kn + 1) = length rest mod (kn + 1)"
      by (rule mod_add_self2)
    have d1: "(length rest + (kn + 1)) div (kn + 1) = length rest div (kn + 1) + 1"
      by (rule div_add_self2) simp
    have r3': "length (batch d') = length rest mod (kn + 1)" using r3 by simp
    have r4': "length (windows evs) = length rest div (kn + 1)" using r4 by simp
    have c3: "length (batch d') = (length (batch d) + length (f # rest)) mod (kn + 1)"
      unfolding ar m1 by (rule r3')
    have c4: "length (windows (Wait (map fst (batch d)) # evs))
                = (length (batch d) + length (f # rest)) div (kn + 1)"
      unfolding ar d1 using r4' by simp
    have c5: "length (started (Wait (map fst (batch d)) # evs))
                + length (windows (Wait (map fst (batch d)) # evs)) = length (f # rest)"
      using r5 by simp
    have c6: "processed d' + length (batch d')
                = processed d + length (batch d) + length (started (Wait (map fst (batch d)) # evs))"
      using r6 pr by simp
    from step r1 r2 c3 c4 c5 c6 show ?thesis by blast
  qed
qed

lemma final_wait_counts:
  assumes own: "own_jobs h ap opts (batch d)" and ok: "jobs_succeed h ap opts (map fst (batch d))"
  shows "\<exists>evs d'. final_wait h d = (evs, Inr d')
           \<and> length (windows evs) = (if batch d = [] then 0 else 1)
           \<and> processed d' = processed d + length (batch d)"
proof (cases "batch d = []")
  case True
  then show ?thesis by (simp add: final_wait_def)
next
  case False
  from jobs_succeed_all [OF own ok] obtain results where
    all: "promise_all (completion h (waits d)) (batch d) = Inr results" by blast
  have "processed (merge_results results d) = processed d + length (batch d)"
    using own_jobs_processed [OF own all] by (simp add: merge_results_fields)
  with False all show ?thesis by (simp add: final_wait_def)
qed

lemma dispatcher_counts:
  assumes dir: "mkdirP h (outputDir opts) = None"
    and ok: "jobs_succeed h amatlPath opts files"
  shows "\<exists>evs r. processMarkdownFiles h amatlPath files opts = (evs, Inr r)
           \<and> filesProcessed r = length files - length files div (nat (batchSize h) + 1)
           \<and> length (started evs) = length files - length files div (nat (batchSize h) + 1)
           \<and> length (windows evs)
               = length files div (nat (batchSize h) + 1)
                 + (if length files mod (nat (batchSize h) + 1) = 0 then 0 else 1)"
proof -
  define kn where "kn = nat (batchSize h)"
  have "1 \<le> batchSize h" by (simp add: batchSize_def Let_def)
  then have k: "batchSize h = int kn" "1 \<le> kn"
    unfolding kn_def by simp_all
  let ?d0 = "\<lparr>batch = [], outs = [], processed = 0, waits = 0\<rparr>"
  have own0: "own_jobs h amatlPath opts (batch ?d0)" by (simp add: own_jobs_def)
  have ok0: "jobs_succeed h amatlPath opts (map fst (batch ?d0))" by (simp add: jobs_succeed_def)
  have len0: "length (batch ?d0) \<le> kn" by simp
  from dispatch_loop_counts [OF k ok own0 ok0 len0] obtain evs1 d1 where
    loop: "dispatch_loop h amatlPath opts (batchSize h) files ?d0 = (evs1, Inr d1)"
    and l1: "own_jobs h amatlPath opts (batch d1)"
    and l2: "jobs_succeed h amatlPath opts (map fst (batch d1))"
    and l3: "length (batch d1) = length files mod (kn + 1)"
    and l4: "length (windows evs1) = length files div (kn + 1)"
    and l5: "length (started evs1) + length (windows evs1) = length files"
    and l6: "processed d1 + length (batch d1) = length (started evs1)"
    by auto
  from final_wait_counts [OF l1 l2] obtain evs2 d2 where
    fin: "final_wait h d1 = (evs2, Inr d2)"
    and f1: "length (windows evs2) = (if batch d1 = [] then 0 else 1)"
    and f2: "processed d2 = processed d1 + length (batch d1)"
    by blast
  have st2: "started evs2 = []"
    using fin by (auto simp: final_wait_def split: if_splits sum.splits)
  have dis: "dispatch h amatlPath opts (batchSize h) files = (evs1 @ evs2, Inr d2)"
    using loop fin by (simp add: dispatch_def)
  let ?evs = "MkdirP (outputDir opts) # evs1 @ evs2"
  let ?r = "\<lparr>filesProcessed = processed d2, outputFiles = outs d2\<rparr>"
  have whole: "processMarkdownFiles h amatlPath files opts = (?evs, Inr ?r)"
    using dir dis by (simp add: processMarkdownFiles_def)
  have started1: "length (started evs1) = length files - length files div (kn + 1)"
    using l4 l5 by simp
  have c1: "filesProcessed ?r = length files - length files div (kn + 1)"
    using f2 l6 started1 by simp
  have c2: "length (started ?evs) = length files - length files div (kn + 1)"
    using started1 st2 by (simp add: started_append)
  have e: "(batch d1 = []) = (length files mod (kn + 1) = 0)"
    using l3 by (metis length_0_conv)
  have c3: "length (windows ?evs)
              = length files div (kn + 1) + (if length files mod (kn + 1) = 0 then 0 else 1)"
    using l4 f1 e by (simp add: windows_append)
  from whole c1 c2 c3 show ?thesis unfolding kn_def by blast
qed

end
